theory Spec2Isabelle
  imports Main "HOL-Library.Char_ord" "HOL-Library.List_Lexorder"
begin

section \<open>JavaScript values\<close>

text \<open>
  The decorator of \<^verbatim>\<open>src/memoize-decorator.ts\<close> stores arbitrary JavaScript values as keys
  and as results. The fragment modelled here: the primitives \<^verbatim>\<open>undefined\<close>, \<^verbatim>\<open>null\<close>,
  booleans, integer numbers and strings, and arrays and plain objects. An array or object
  carries the address of its allocation, so that two values of the same contents can still
  be two different references; its contents are those it has when it is used as a key
  (objects are not mutated while they sit in a cache). Symbols, non-integer numbers and
  objects with a \<^verbatim>\<open>toString\<close> of their own are outside the fragment.
\<close>

datatype jsval =
    Undefined
  | Null
  | Bool bool
  | Num int
  | Str string
  | Arr nat "jsval list"
  | Obj nat "(string \<times> jsval) list"

text \<open>What a \<^verbatim>\<open>throw\<close> carries: a \<^verbatim>\<open>TypeError\<close> of the runtime, or a value thrown by user code.\<close>

datatype exn = TypeError | Thrown jsval

text \<open>
  A method of a class, as the decorator sees it through \<^verbatim>\<open>apply(this, args)\<close>: a function of
  the receiver and the argument list that returns a value or throws. The user's key
  function has the same shape. Neither reads or writes the cache stores.
\<close>

type_synonym js_method = "jsval \<Rightarrow> jsval list \<Rightarrow> exn + jsval"

text \<open>Key equality of the built-in \<^verbatim>\<open>Map\<close>: primitives by value, objects by reference.\<close>

definition SameValueZero :: "jsval \<Rightarrow> jsval \<Rightarrow> bool" where
  "SameValueZero x y =
     (case x of
        Arr a xs \<Rightarrow> (case y of Arr b ys \<Rightarrow> a = b | _ \<Rightarrow> False)
      | Obj a fs \<Rightarrow> (case y of Obj b gs \<Rightarrow> a = b | _ \<Rightarrow> False)
      | _ \<Rightarrow> x = y)"

subsection \<open>Conversion to strings\<close>

function nat_digits :: "nat \<Rightarrow> string" where
  "nat_digits n =
     (if n < 10 then [char_of (48 + n)]
      else nat_digits (n div 10) @ [char_of (48 + n mod 10)])"
  by pat_completeness auto
termination
  by (relation "measure id") auto

declare nat_digits.simps [simp del]

definition int_digits :: "int \<Rightarrow> string" where
  "int_digits i = (if i < 0 then CHR ''-'' # nat_digits (nat (- i)) else nat_digits (nat i))"

fun join :: "string \<Rightarrow> string list \<Rightarrow> string" where
  "join sep [] = []"
| "join sep [s] = s"
| "join sep (s # t # ss) = s @ sep @ join sep (t # ss)"

text \<open>
  \<^verbatim>\<open>ToString\<close> of the language, as a template literal applies it. An array prints its
  elements joined by commas, with \<^verbatim>\<open>undefined\<close> and \<^verbatim>\<open>null\<close> elements printed empty.
\<close>

fun ToString :: "jsval \<Rightarrow> string" where
  "ToString Undefined = ''undefined''"
| "ToString Null = ''null''"
| "ToString (Bool b) = (if b then ''true'' else ''false'')"
| "ToString (Num i) = int_digits i"
| "ToString (Str s) = s"
| "ToString (Arr a xs) =
     join '','' (map (\<lambda>x. if x = Undefined \<or> x = Null then [] else ToString x) xs)"
| "ToString (Obj a fs) = ''[object Object]''"

text \<open>The method call \<^verbatim>\<open>a.toString()\<close>: a \<^verbatim>\<open>TypeError\<close> on \<^verbatim>\<open>undefined\<close> and \<^verbatim>\<open>null\<close>.\<close>

definition toString :: "jsval \<Rightarrow> exn + string" where
  "toString a = (if a = Undefined \<or> a = Null then Inl TypeError else Inr (ToString a))"

section \<open>The built-in Map\<close>

text \<open>
  A \<^verbatim>\<open>Map\<close> keeps its entries in insertion order; \<^verbatim>\<open>set\<close> on a key that is present
  replaces the value where it stands. The key equality is a parameter: \<open>SameValueZero\<close>
  for a map over values, \<open>(=)\<close> for a map over strings.
\<close>

fun Map_has :: "('k \<Rightarrow> 'k \<Rightarrow> bool) \<Rightarrow> ('k \<times> 'v) list \<Rightarrow> 'k \<Rightarrow> bool" where
  "Map_has same [] k = False"
| "Map_has same ((k', v) # m) k = (if same k' k then True else Map_has same m k)"

fun Map_get :: "('k \<Rightarrow> 'k \<Rightarrow> bool) \<Rightarrow> ('k \<times> 'v) list \<Rightarrow> 'k \<Rightarrow> 'v option" where
  "Map_get same [] k = None"
| "Map_get same ((k', v) # m) k = (if same k' k then Some v else Map_get same m k)"

fun Map_set :: "('k \<Rightarrow> 'k \<Rightarrow> bool) \<Rightarrow> ('k \<times> 'v) list \<Rightarrow> 'k \<Rightarrow> 'v \<Rightarrow> ('k \<times> 'v) list" where
  "Map_set same [] k v = [(k, v)]"
| "Map_set same ((k', v') # m) k v =
     (if same k' k then (k', v) # m else (k', v') # Map_set same m k v)"

fun Map_delete :: "('k \<Rightarrow> 'k \<Rightarrow> bool) \<Rightarrow> ('k \<times> 'v) list \<Rightarrow> 'k \<Rightarrow> ('k \<times> 'v) list" where
  "Map_delete same [] k = []"
| "Map_delete same ((k', v') # m) k =
     (if same k' k then m else (k', v') # Map_delete same m k)"

text \<open>\<^verbatim>\<open>myMap.get(key)\<close> as an expression: \<^verbatim>\<open>undefined\<close> when the key is absent.\<close>

definition Map_get_value :: "(jsval \<times> jsval) list \<Rightarrow> jsval \<Rightarrow> jsval" where
  "Map_get_value m k = (case Map_get SameValueZero m k of None \<Rightarrow> Undefined | Some v \<Rightarrow> v)"

section \<open>DeepEqualMap\<close>

text \<open>
  The class \<^verbatim>\<open>DeepEqualMap\<close> wraps a \<^verbatim>\<open>Map<string, {key, value}>\<close>. Its key
  comparison \<^verbatim>\<open>equal\<close> is the package \<^verbatim>\<open>fast-deep-equal\<close>, which is not part of the
  repository: it is the parameter \<open>equal\<close> of every operation. The string under which
  \<^verbatim>\<open>set\<close> files an entry is built from the clock and \<^verbatim>\<open>Math.random()\<close>; it is the
  parameter \<open>serializedKey\<close>, drawn by the caller.
\<close>

type_synonym DeepEqualMap = "(string \<times> (jsval \<times> jsval)) list"

fun DeepEqualMap_has :: "(jsval \<Rightarrow> jsval \<Rightarrow> bool) \<Rightarrow> DeepEqualMap \<Rightarrow> jsval \<Rightarrow> bool" where
  "DeepEqualMap_has equal [] key = False"
| "DeepEqualMap_has equal ((s, (k, v)) # entries) key =
     (if equal k key then True else DeepEqualMap_has equal entries key)"

fun DeepEqualMap_get :: "(jsval \<Rightarrow> jsval \<Rightarrow> bool) \<Rightarrow> DeepEqualMap \<Rightarrow> jsval \<Rightarrow> jsval" where
  "DeepEqualMap_get equal [] key = Undefined"
| "DeepEqualMap_get equal ((s, (k, v)) # entries) key =
     (if equal k key then v else DeepEqualMap_get equal entries key)"

text \<open>The first loop of \<^verbatim>\<open>set\<close>: the serialized key of the first entry whose key matches.\<close>

fun first_match :: "(jsval \<Rightarrow> jsval \<Rightarrow> bool) \<Rightarrow> DeepEqualMap \<Rightarrow> jsval \<Rightarrow> string option" where
  "first_match equal [] key = None"
| "first_match equal ((s, (k, v)) # entries) key =
     (if equal k key then Some s else first_match equal entries key)"

definition DeepEqualMap_set ::
  "(jsval \<Rightarrow> jsval \<Rightarrow> bool) \<Rightarrow> DeepEqualMap \<Rightarrow> jsval \<Rightarrow> jsval \<Rightarrow> string \<Rightarrow> DeepEqualMap" where
  "DeepEqualMap_set equal m key val serializedKey =
     Map_set (=)
       (case first_match equal m key of
          None \<Rightarrow> m
        | Some s \<Rightarrow> Map_delete (=) m s)
       serializedKey (key, val)"

definition DeepEqualMap_clear :: "DeepEqualMap \<Rightarrow> DeepEqualMap" where
  "DeepEqualMap_clear m = []"

section \<open>Configuration of a memoized member\<close>

text \<open>The option \<^verbatim>\<open>hashFunction?: boolean | ((...args) => any)\<close>.\<close>

datatype hash_function = HUndefined | HBool bool | HFun js_method

text \<open>The interface \<^verbatim>\<open>MemoizeArgs\<close>; every field is optional.\<close>

record MemoizeArgs =
  args_expiring :: "int option"
  args_hashFunction :: hash_function
  args_tags :: "string list option"
  args_useDeepEqual :: "bool option"

text \<open>
  The argument of \<^verbatim>\<open>Memoize\<close>: an options object, or anything else (a key function,
  a boolean, or nothing at all), which is taken as the \<^verbatim>\<open>hashFunction\<close>.
\<close>

datatype memoize_arg = ArgsObject MemoizeArgs | ArgsOther hash_function

text \<open>
  What \<^verbatim>\<open>Memoize\<close> hands to \<^verbatim>\<open>getNewFunction\<close>: the four local variables
  \<^verbatim>\<open>hashFunction\<close>, \<^verbatim>\<open>duration\<close>, \<^verbatim>\<open>tags\<close> and \<^verbatim>\<open>useDeepEqual\<close>, the last one
  initialised to \<^verbatim>\<open>false\<close>.
\<close>

record member_config =
  cfg_hashFunction :: hash_function
  cfg_duration :: "int option"
  cfg_tags :: "string list option"
  cfg_useDeepEqual :: bool

definition Memoize :: "memoize_arg \<Rightarrow> member_config" where
  "Memoize args =
     (case args of
        ArgsObject a \<Rightarrow>
          \<lparr> cfg_hashFunction = args_hashFunction a,
            cfg_duration = args_expiring a,
            cfg_tags = args_tags a,
            cfg_useDeepEqual = (case args_useDeepEqual a of None \<Rightarrow> False | Some b \<Rightarrow> b) \<rparr>
      | ArgsOther h \<Rightarrow>
          \<lparr> cfg_hashFunction = h,
            cfg_duration = None,
            cfg_tags = None,
            cfg_useDeepEqual = False \<rparr>)"

definition MemoizeExpiring :: "int \<Rightarrow> hash_function \<Rightarrow> member_config" where
  "MemoizeExpiring expiring hashFunction =
     Memoize (ArgsObject \<lparr> args_expiring = Some expiring, args_hashFunction = hashFunction,
                           args_tags = None, args_useDeepEqual = None \<rparr>)"

text \<open>Truthiness of the option, as \<^verbatim>\<open>if (hashFunction)\<close> tests it.\<close>

fun truthy :: "hash_function \<Rightarrow> bool" where
  "truthy HUndefined = False"
| "truthy (HBool b) = b"
| "truthy (HFun f) = True"

section \<open>Stores, the tag registry and the program state\<close>

text \<open>
  What the registry \<^verbatim>\<open>clearCacheTagsMap\<close> holds under a tag. In shallow mode it is the
  instance's \<^verbatim>\<open>Map\<close> itself: \<open>MapRef member instance\<close>. In deep mode it is an object
  \<^verbatim>\<open>{ clear: () => myMap.clear() }\<close> made anew at each registration:
  \<open>WrapperRef n member instance\<close> is the \<open>n\<close>-th such object, and clears the
  \<^verbatim>\<open>DeepEqualMap\<close> of that member on that instance. A member is the number of the call
  of \<^verbatim>\<open>getNewFunction\<close> that made its two symbols; an instance is the address of the
  receiver.
\<close>

datatype store_ref = MapRef nat nat | WrapperRef nat nat nat

record state =
  shallow_maps :: "nat \<times> nat \<Rightarrow> (jsval \<times> jsval) list option"
  deep_maps :: "nat \<times> nat \<Rightarrow> DeepEqualMap option"
  clearCacheTagsMap :: "(string \<times> store_ref list) list"
  wrappers :: nat

definition initial_state :: state where
  "initial_state =
     \<lparr> shallow_maps = (\<lambda>p. None), deep_maps = (\<lambda>p. None), clearCacheTagsMap = [], wrappers = 0 \<rparr>"

text \<open>
  What a call reads from outside the program: the clock at the staleness test and at the
  writing of the timestamp, the two serialized keys \<^verbatim>\<open>DeepEqualMap.set\<close> draws, and the
  addresses of the two objects the call allocates (the rest array \<^verbatim>\<open>args\<close> and the
  object \<^verbatim>\<open>timestampKey\<close>).
\<close>

record env =
  now_check :: int
  now_store :: int
  serial_value :: string
  serial_stamp :: string
  addr_args :: nat
  addr_stamp :: nat

text \<open>
  What the decorator takes from outside the repository: the comparison \<^verbatim>\<open>equal\<close> of
  \<^verbatim>\<open>fast-deep-equal\<close>, and the language's conversion to a number of a value that is
  not a number (\<open>None\<close> for \<^verbatim>\<open>NaN\<close>), which the subtraction
  \<^verbatim>\<open>Date.now() - timestamp\<close> applies.
\<close>

record runtime =
  rt_equal :: "jsval \<Rightarrow> jsval \<Rightarrow> bool"
  rt_ToNumber :: "jsval \<Rightarrow> int option"

fun address_of :: "jsval \<Rightarrow> nat option" where
  "address_of (Arr a xs) = Some a"
| "address_of (Obj a fs) = Some a"
| "address_of v = None"

subsection \<open>Registration under the tags\<close>

text \<open>
  One turn of the loop over \<^verbatim>\<open>tags\<close>: push onto the tag's array, or start the array.
\<close>

definition register_tag :: "(string \<times> store_ref list) list \<Rightarrow> string \<Rightarrow> store_ref \<Rightarrow> (string \<times> store_ref list) list" where
  "register_tag reg tag mp =
     (if Map_has (=) reg tag
      then (case Map_get (=) reg tag of
              Some maps \<Rightarrow> Map_set (=) reg tag (maps @ [mp])
            | None \<Rightarrow> reg)
      else Map_set (=) reg tag [mp])"

fun register_map :: "nat \<Rightarrow> nat \<Rightarrow> string list \<Rightarrow> state \<Rightarrow> state" where
  "register_map member i [] st = st"
| "register_map member i (tag # ts) st =
     register_map member i ts
       (st\<lparr> clearCacheTagsMap := register_tag (clearCacheTagsMap st) tag (MapRef member i) \<rparr>)"

fun register_wrappers :: "nat \<Rightarrow> nat \<Rightarrow> string list \<Rightarrow> state \<Rightarrow> state" where
  "register_wrappers member i [] st = st"
| "register_wrappers member i (tag # ts) st =
     register_wrappers member i ts
       (st\<lparr> clearCacheTagsMap :=
              register_tag (clearCacheTagsMap st) tag (WrapperRef (wrappers st) member i),
            wrappers := Suc (wrappers st) \<rparr>)"

subsection \<open>Staleness\<close>

text \<open>
  The variable \<^verbatim>\<open>isExpired\<close>, the same code in both modes: \<open>has_timestamp\<close> is
  \<^verbatim>\<open>myMap.has(timestampKey)\<close> and \<open>timestamp\<close> is \<^verbatim>\<open>myMap.get(timestampKey)\<close>.
  A comparison with \<^verbatim>\<open>NaN\<close> is false.
\<close>

definition isExpired :: "runtime \<Rightarrow> int \<Rightarrow> int \<Rightarrow> bool \<Rightarrow> jsval \<Rightarrow> bool" where
  "isExpired rt duration now has_timestamp timestamp =
     (if duration > 0 then
        (if has_timestamp then
           (case (case timestamp of Num t \<Rightarrow> Some t | _ \<Rightarrow> rt_ToNumber rt timestamp) of
              None \<Rightarrow> False
            | Some t \<Rightarrow> now - t > duration)
         else True)
      else False)"

section \<open>The memoized member\<close>

subsection \<open>Deep mode\<close>

text \<open>The variable \<^verbatim>\<open>hashKey\<close> of the deep branch; \<open>a\<close> is the address of \<^verbatim>\<open>args\<close>.\<close>

definition deep_hashKey :: "hash_function \<Rightarrow> jsval \<Rightarrow> jsval list \<Rightarrow> nat \<Rightarrow> exn + jsval" where
  "deep_hashKey hashFunction this args a =
     (case hashFunction of
        HBool True \<Rightarrow> Inr (Arr a args)
      | HFun f \<Rightarrow> f this args
      | _ \<Rightarrow>
          (case args of
             [] \<Rightarrow> Inr this
           | [x] \<Rightarrow> Inr x
           | _ \<Rightarrow> Inr (Arr a args)))"

text \<open>The object \<^verbatim>\<open>{ __timestamp: true, key: hashKey }\<close>, allocated at address \<open>a\<close>.\<close>

definition deep_timestampKey :: "nat \<Rightarrow> jsval \<Rightarrow> jsval" where
  "deep_timestampKey a hashKey = Obj a [(''__timestamp'', Bool True), (''key'', hashKey)]"

text \<open>
  From the staleness test to the end of the deep branch, on the instance's map
  \<open>myMap\<close>: the returned value or the thrown one, whether \<^verbatim>\<open>originalMethod\<close> was
  called, and the map afterwards.
\<close>

definition deep_lookup ::
  "runtime \<Rightarrow> js_method \<Rightarrow> int \<Rightarrow> env \<Rightarrow> DeepEqualMap \<Rightarrow> jsval \<Rightarrow> jsval \<Rightarrow> jsval list
   \<Rightarrow> (exn + jsval) \<times> bool \<times> DeepEqualMap" where
  "deep_lookup rt originalMethod duration e myMap hashKey this args =
     (let timestampKey = deep_timestampKey (addr_stamp e) hashKey;
          expired = isExpired rt duration (now_check e)
                      (DeepEqualMap_has (rt_equal rt) myMap timestampKey)
                      (DeepEqualMap_get (rt_equal rt) myMap timestampKey)
      in if DeepEqualMap_has (rt_equal rt) myMap hashKey \<and> \<not> expired
         then (Inr (DeepEqualMap_get (rt_equal rt) myMap hashKey), False, myMap)
         else (case originalMethod this args of
                 Inl x \<Rightarrow> (Inl x, True, myMap)
               | Inr returnedValue \<Rightarrow>
                   (Inr returnedValue, True,
                    (let m1 = DeepEqualMap_set (rt_equal rt) myMap hashKey returnedValue
                                (serial_value e)
                     in if duration > 0
                        then DeepEqualMap_set (rt_equal rt) m1 timestampKey
                               (Num (now_store e)) (serial_stamp e)
                        else m1))))"

definition deep_call ::
  "runtime \<Rightarrow> nat \<Rightarrow> js_method \<Rightarrow> hash_function \<Rightarrow> int \<Rightarrow> string list option
   \<Rightarrow> env \<Rightarrow> state \<Rightarrow> jsval \<Rightarrow> jsval list \<Rightarrow> (exn + jsval) \<times> bool \<times> state" where
  "deep_call rt member originalMethod hashFunction duration tags e st this args =
     (case address_of this of
        None \<Rightarrow> (Inl TypeError, False, st)
      | Some i \<Rightarrow>
          (let myMap = (case deep_maps st (member, i) of None \<Rightarrow> [] | Some m \<Rightarrow> m);
               st1 = st\<lparr> deep_maps := (deep_maps st)((member, i) \<mapsto> myMap) \<rparr>;
               st2 = (case tags of None \<Rightarrow> st1 | Some ts \<Rightarrow> register_wrappers member i ts st1)
           in case deep_hashKey hashFunction this args (addr_args e) of
                Inl x \<Rightarrow> (Inl x, False, st2)
              | Inr hashKey \<Rightarrow>
                  (case deep_lookup rt originalMethod duration e myMap hashKey this args of
                     (r, called, m') \<Rightarrow>
                       (r, called, st2\<lparr> deep_maps := (deep_maps st2)((member, i) \<mapsto> m') \<rparr>))))"

subsection \<open>Shallow mode\<close>

fun toStrings :: "jsval list \<Rightarrow> exn + string list" where
  "toStrings [] = Inr []"
| "toStrings (a # as) =
     (case toString a of
        Inl x \<Rightarrow> Inl x
      | Inr s \<Rightarrow> (case toStrings as of Inl x \<Rightarrow> Inl x | Inr ss \<Rightarrow> Inr (s # ss)))"

text \<open>The variable \<^verbatim>\<open>hashKey\<close> of the keyed shallow branch; \<^verbatim>\<open>args[0]\<close> of no arguments is \<^verbatim>\<open>undefined\<close>.\<close>

definition shallow_hashKey :: "hash_function \<Rightarrow> jsval \<Rightarrow> jsval list \<Rightarrow> exn + jsval" where
  "shallow_hashKey hashFunction this args =
     (case hashFunction of
        HBool True \<Rightarrow>
          (case toStrings args of Inl x \<Rightarrow> Inl x | Inr ss \<Rightarrow> Inr (Str (join ''!'' ss)))
      | HFun f \<Rightarrow> f this args
      | _ \<Rightarrow> Inr (case args of [] \<Rightarrow> Undefined | x # xs \<Rightarrow> x))"

text \<open>The template literal \<^verbatim>\<open>`${hashKey}__timestamp`\<close>.\<close>

definition shallow_timestampKey :: "jsval \<Rightarrow> jsval" where
  "shallow_timestampKey hashKey = Str (ToString hashKey @ ''__timestamp'')"

definition shallow_lookup ::
  "runtime \<Rightarrow> js_method \<Rightarrow> int \<Rightarrow> env \<Rightarrow> (jsval \<times> jsval) list \<Rightarrow> jsval \<Rightarrow> jsval \<Rightarrow> jsval list
   \<Rightarrow> (exn + jsval) \<times> bool \<times> (jsval \<times> jsval) list" where
  "shallow_lookup rt originalMethod duration e myMap hashKey this args =
     (let timestampKey = shallow_timestampKey hashKey;
          expired = isExpired rt duration (now_check e)
                      (Map_has SameValueZero myMap timestampKey)
                      (Map_get_value myMap timestampKey)
      in if Map_has SameValueZero myMap hashKey \<and> \<not> expired
         then (Inr (Map_get_value myMap hashKey), False, myMap)
         else (case originalMethod this args of
                 Inl x \<Rightarrow> (Inl x, True, myMap)
               | Inr returnedValue \<Rightarrow>
                   (Inr returnedValue, True,
                    (let m1 = Map_set SameValueZero myMap hashKey returnedValue
                     in if duration > 0
                        then Map_set SameValueZero m1 timestampKey (Num (now_store e))
                        else m1))))"

text \<open>The last branch: the receiver is the key, and nothing expires.\<close>

definition shallow_lookup_this ::
  "js_method \<Rightarrow> (jsval \<times> jsval) list \<Rightarrow> jsval \<Rightarrow> jsval list
   \<Rightarrow> (exn + jsval) \<times> bool \<times> (jsval \<times> jsval) list" where
  "shallow_lookup_this originalMethod myMap this args =
     (let hashKey = this
      in if Map_has SameValueZero myMap hashKey
         then (Inr (Map_get_value myMap hashKey), False, myMap)
         else (case originalMethod this args of
                 Inl x \<Rightarrow> (Inl x, True, myMap)
               | Inr returnedValue \<Rightarrow>
                   (Inr returnedValue, True, Map_set SameValueZero myMap hashKey returnedValue)))"

definition shallow_call ::
  "runtime \<Rightarrow> nat \<Rightarrow> js_method \<Rightarrow> hash_function \<Rightarrow> int \<Rightarrow> string list option
   \<Rightarrow> env \<Rightarrow> state \<Rightarrow> jsval \<Rightarrow> jsval list \<Rightarrow> (exn + jsval) \<times> bool \<times> state" where
  "shallow_call rt member originalMethod hashFunction duration tags e st this args =
     (case address_of this of
        None \<Rightarrow> (Inl TypeError, False, st)
      | Some i \<Rightarrow>
          (let myMap = (case shallow_maps st (member, i) of None \<Rightarrow> [] | Some m \<Rightarrow> m);
               st1 = st\<lparr> shallow_maps := (shallow_maps st)((member, i) \<mapsto> myMap) \<rparr>;
               st2 = (case tags of None \<Rightarrow> st1 | Some ts \<Rightarrow> register_map member i ts st1)
           in if truthy hashFunction \<or> length args > 0 \<or> duration > 0
              then (case shallow_hashKey hashFunction this args of
                      Inl x \<Rightarrow> (Inl x, False, st2)
                    | Inr hashKey \<Rightarrow>
                        (case shallow_lookup rt originalMethod duration e myMap hashKey this args of
                           (r, called, m') \<Rightarrow>
                             (r, called,
                              st2\<lparr> shallow_maps := (shallow_maps st2)((member, i) \<mapsto> m') \<rparr>)))
              else (case shallow_lookup_this originalMethod myMap this args of
                      (r, called, m') \<Rightarrow>
                        (r, called,
                         st2\<lparr> shallow_maps := (shallow_maps st2)((member, i) \<mapsto> m') \<rparr>))))"

subsection \<open>getNewFunction\<close>

text \<open>
  The function \<^verbatim>\<open>getNewFunction\<close> returns the replacement of the member. Its first two
  arguments here are the runtime and the number of the member; \<open>duration\<close> defaults to
  \<open>0\<close> when \<^verbatim>\<open>Memoize\<close> passes \<^verbatim>\<open>undefined\<close>. The replacement is called with what
  the call reads from outside, the state, the receiver and the arguments; it gives the
  value returned or thrown, whether \<^verbatim>\<open>originalMethod\<close> was called, and the state
  afterwards.
\<close>

definition getNewFunction ::
  "runtime \<Rightarrow> nat \<Rightarrow> js_method \<Rightarrow> hash_function \<Rightarrow> int option \<Rightarrow> string list option \<Rightarrow> bool
   \<Rightarrow> env \<Rightarrow> state \<Rightarrow> jsval \<Rightarrow> jsval list \<Rightarrow> (exn + jsval) \<times> bool \<times> state" where
  "getNewFunction rt member originalMethod hashFunction duration tags useDeepEqual e st this args =
     (let d = (case duration of None \<Rightarrow> 0 | Some n \<Rightarrow> n)
      in if useDeepEqual
         then deep_call rt member originalMethod hashFunction d tags e st this args
         else shallow_call rt member originalMethod hashFunction d tags e st this args)"

text \<open>A member decorated with the configuration \<open>c\<close>, as \<^verbatim>\<open>Memoize\<close> wires it.\<close>

definition memoized ::
  "runtime \<Rightarrow> nat \<Rightarrow> member_config \<Rightarrow> js_method
   \<Rightarrow> env \<Rightarrow> state \<Rightarrow> jsval \<Rightarrow> jsval list \<Rightarrow> (exn + jsval) \<times> bool \<times> state" where
  "memoized rt member c originalMethod =
     getNewFunction rt member originalMethod (cfg_hashFunction c) (cfg_duration c) (cfg_tags c)
       (cfg_useDeepEqual c)"

definition returned :: "(exn + jsval) \<times> bool \<times> state \<Rightarrow> exn + jsval" where
  "returned r = fst r"

definition invoked :: "(exn + jsval) \<times> bool \<times> state \<Rightarrow> bool" where
  "invoked r = fst (snd r)"

definition state_after :: "(exn + jsval) \<times> bool \<times> state \<Rightarrow> state" where
  "state_after r = snd (snd r)"

section \<open>Invalidation by tag\<close>

text \<open>\<^verbatim>\<open>mp.clear()\<close> on what the registry holds.\<close>

fun clear_store :: "store_ref \<Rightarrow> state \<Rightarrow> state" where
  "clear_store (MapRef member i) st =
     st\<lparr> shallow_maps := (shallow_maps st)((member, i) \<mapsto> []) \<rparr>"
| "clear_store (WrapperRef n member i) st =
     st\<lparr> deep_maps := (deep_maps st)((member, i) \<mapsto>
           DeepEqualMap_clear (case deep_maps st (member, i) of None \<Rightarrow> [] | Some m \<Rightarrow> m)) \<rparr>"

text \<open>
  The inner loop of \<^verbatim>\<open>clear\<close> over the array of one tag. The set \<^verbatim>\<open>cleared\<close> is the list
  of its members in insertion order, without repetition.
\<close>

fun clear_maps :: "store_ref list \<Rightarrow> store_ref list \<times> state \<Rightarrow> store_ref list \<times> state" where
  "clear_maps [] (cleared, st) = (cleared, st)"
| "clear_maps (mp # maps) (cleared, st) =
     (if mp \<in> set cleared
      then clear_maps maps (cleared, st)
      else clear_maps maps (cleared @ [mp], clear_store mp st))"

fun clear_tags :: "string list \<Rightarrow> store_ref list \<times> state \<Rightarrow> store_ref list \<times> state" where
  "clear_tags [] (cleared, st) = (cleared, st)"
| "clear_tags (tag # ts) (cleared, st) =
     (case Map_get (=) (clearCacheTagsMap st) tag of
        Some maps \<Rightarrow> clear_tags ts (clear_maps maps (cleared, st))
      | None \<Rightarrow> clear_tags ts (cleared, st))"

definition clear :: "string list \<Rightarrow> state \<Rightarrow> nat \<times> state" where
  "clear tags st = (case clear_tags tags ([], st) of (cleared, st') \<Rightarrow> (length cleared, st'))"

section \<open>A structural comparison\<close>

text \<open>
  Modelled from the spec: the deep-equality predicate, an external collaborator whose code
  (\<^verbatim>\<open>fast-deep-equal\<close>) is not in the repository. The spec says of it: given two
  arbitrary values, it returns whether they are structurally equivalent, recursing into
  nested containers and comparing primitive values by value. Two values are equivalent
  here when they agree once every address is forgotten and the properties of every object
  are put in the order of their names.
\<close>

fun canonical :: "jsval \<Rightarrow> jsval" where
  "canonical (Arr a xs) = Arr 0 (map canonical xs)"
| "canonical (Obj a fs) = Obj 0 (sort_key fst (map (\<lambda>p. (fst p, canonical (snd p))) fs))"
| "canonical v = v"

definition deep_equal :: "jsval \<Rightarrow> jsval \<Rightarrow> bool" where
  "deep_equal a b = (canonical a = canonical b)"

definition runtime_of :: "(jsval \<Rightarrow> int option) \<Rightarrow> runtime" where
  "runtime_of tn = \<lparr> rt_equal = deep_equal, rt_ToNumber = tn \<rparr>"

section \<open>Notions used in the statements\<close>

text \<open>
  The member of the repository's tests: \<^verbatim>\<open>getGreeting(greeting, planet)\<close> returns
  \<^verbatim>\<open>greeting + ', ' + planet\<close>. A parameter with no argument is \<^verbatim>\<open>undefined\<close>.
\<close>

definition argument :: "jsval list \<Rightarrow> nat \<Rightarrow> jsval" where
  "argument args n = (if n < length args then args ! n else Undefined)"

definition getGreeting :: js_method where
  "getGreeting this args =
     Inr (Str (ToString (argument args 0) @ '', '' @ ToString (argument args 1)))"

text \<open>The entries of a member's store on an instance; a store not made yet has none.\<close>

definition shallow_entries :: "state \<Rightarrow> nat \<times> nat \<Rightarrow> (jsval \<times> jsval) list" where
  "shallow_entries st p = (case shallow_maps st p of None \<Rightarrow> [] | Some m \<Rightarrow> m)"

definition deep_entries :: "state \<Rightarrow> nat \<times> nat \<Rightarrow> DeepEqualMap" where
  "deep_entries st p = (case deep_maps st p of None \<Rightarrow> [] | Some m \<Rightarrow> m)"

text \<open>What the registry holds under a tag; nothing under a tag it does not know.\<close>

definition tag_maps :: "(string \<times> store_ref list) list \<Rightarrow> string \<Rightarrow> store_ref list" where
  "tag_maps reg tag = (case Map_get (=) reg tag of None \<Rightarrow> [] | Some maps \<Rightarrow> maps)"

definition registered :: "state \<Rightarrow> string \<Rightarrow> store_ref list" where
  "registered st tag = tag_maps (clearCacheTagsMap st) tag"

text \<open>The wrappers that one deep call makes for the tag \<open>tag\<close>, in the order of the loop.\<close>

definition new_wrappers :: "nat \<Rightarrow> nat \<Rightarrow> nat \<Rightarrow> string list \<Rightarrow> string \<Rightarrow> store_ref list" where
  "new_wrappers n member i ts tag =
     map (\<lambda>j. WrapperRef (n + j) member i) (filter (\<lambda>j. ts ! j = tag) [0 ..< length ts])"

text \<open>
  The variable \<^verbatim>\<open>hashKey\<close> of a shallow call, on whichever of the two branches the call
  takes: the keyed branch when there is a \<^verbatim>\<open>hashFunction\<close>, an argument or a positive
  duration, and the receiver otherwise.
\<close>

definition shallow_key :: "hash_function \<Rightarrow> int \<Rightarrow> jsval \<Rightarrow> jsval list \<Rightarrow> exn + jsval" where
  "shallow_key hashFunction duration this args =
     (if truthy hashFunction \<or> length args > 0 \<or> duration > 0
      then shallow_hashKey hashFunction this args
      else Inr this)"

text \<open>
  The entries of a \<^verbatim>\<open>DeepEqualMap\<close> whose key matches a candidate, and the invariant of
  the class: the serialized keys are those of a \<^verbatim>\<open>Map\<close>, hence distinct, and no entry's
  key is matched by the key of a later entry.
\<close>

definition matching :: "(jsval \<Rightarrow> jsval \<Rightarrow> bool) \<Rightarrow> DeepEqualMap \<Rightarrow> jsval \<Rightarrow> DeepEqualMap" where
  "matching eq m key = filter (\<lambda>entry. eq (fst (snd entry)) key) m"

fun unique_keys :: "(jsval \<Rightarrow> jsval \<Rightarrow> bool) \<Rightarrow> DeepEqualMap \<Rightarrow> bool" where
  "unique_keys eq [] = True"
| "unique_keys eq ((s, (k, v)) # entries) =
     (\<not> DeepEqualMap_has eq entries k \<and> unique_keys eq entries)"

definition DeepEqualMap_inv :: "(jsval \<Rightarrow> jsval \<Rightarrow> bool) \<Rightarrow> DeepEqualMap \<Rightarrow> bool" where
  "DeepEqualMap_inv eq m = (distinct (map fst m) \<and> unique_keys eq m)"

text \<open>A sequence of \<^verbatim>\<open>set\<close> operations on a new \<^verbatim>\<open>DeepEqualMap\<close>: key, value, serialized key.\<close>

fun run_sets :: "(jsval \<Rightarrow> jsval \<Rightarrow> bool) \<Rightarrow> DeepEqualMap \<Rightarrow> (jsval \<times> jsval \<times> string) list \<Rightarrow> DeepEqualMap" where
  "run_sets eq m [] = m"
| "run_sets eq m ((k, v, s) # ops) = run_sets eq (DeepEqualMap_set eq m k v s) ops"

text \<open>
  The last operation of a sequence of \<^verbatim>\<open>set\<close> whose key matches a candidate, if there is
  one.
\<close>

fun last_write :: "(jsval \<Rightarrow> jsval \<Rightarrow> bool) \<Rightarrow> (jsval \<times> jsval \<times> string) list \<Rightarrow> jsval
    \<Rightarrow> (jsval \<times> jsval \<times> string) option" where
  "last_write eq [] key = None"
| "last_write eq ((k, v, s) # ops) key =
     (case last_write eq ops key of
        Some w \<Rightarrow> Some w
      | None \<Rightarrow> if eq k key then Some (k, v, s) else None)"

text \<open>The parameter \<^verbatim>\<open>duration: number = 0\<close>: the default stands in for \<^verbatim>\<open>undefined\<close>.\<close>

definition duration_of :: "int option \<Rightarrow> int" where
  "duration_of duration = (case duration of None \<Rightarrow> 0 | Some n \<Rightarrow> n)"



definition example_runtime :: runtime where
  "example_runtime = runtime_of (\<lambda>v. None)"

definition env1 :: env where
  "env1 = \<lparr> now_check = 1000, now_store = 1000, serial_value = ''1000_a'',
            serial_stamp = ''1000_b'', addr_args = 100, addr_stamp = 101 \<rparr>"

definition env2 :: env where
  "env2 = \<lparr> now_check = 1050, now_store = 1050, serial_value = ''1050_a'',
            serial_stamp = ''1050_b'', addr_args = 102, addr_stamp = 103 \<rparr>"


text \<open>For the examples: a member that returns its first argument.\<close>

definition echo :: js_method where
  "echo this args = Inr (argument args 0)"

text \<open>The references the registry holds under the tags of a list.\<close>

definition refs_under :: "state \<Rightarrow> string list \<Rightarrow> store_ref set" where
  "refs_under st tags = (\<Union>tag \<in> set tags. set (registered st tag))"

text \<open>
  The states a program can be in: it starts with no store and an empty registry, and then
  calls memoized members and \<^verbatim>\<open>clear\<close>.
\<close>

inductive reachable :: "runtime \<Rightarrow> state \<Rightarrow> bool" for rt :: runtime where
  start: "reachable rt initial_state"
| call: "reachable rt st \<Longrightarrow>
         reachable rt (state_after
           (getNewFunction rt member originalMethod hashFunction duration tags useDeepEqual
              e st this args))"
| cleared: "reachable rt st \<Longrightarrow> reachable rt (snd (clear tags st))"

section \<open>Properties\<close>

lemmas call_defs = memoized_def Memoize_def getNewFunction_def shallow_call_def deep_call_def
  shallow_lookup_def deep_lookup_def shallow_lookup_this_def shallow_hashKey_def deep_hashKey_def
  isExpired_def returned_def invoked_def state_after_def initial_state_def
  Map_get_value_def SameValueZero_def getGreeting_def argument_def shallow_timestampKey_def
  deep_timestampKey_def DeepEqualMap_set_def shallow_entries_def deep_entries_def

subsection \<open>The default configuration\<close>

text \<open>
  C1. The claim: with no options given, \<^verbatim>\<open>getGreeting('Hola','Mundo')\<close> and then
  \<^verbatim>\<open>getGreeting('Hola','Mars')\<close> on the same instance call the underlying logic twice
  and return \<^verbatim>\<open>'Hola, Mundo'\<close> and \<^verbatim>\<open>'Hola, Mars'\<close>. The code does otherwise:
  \<^verbatim>\<open>Memoize()\<close> leaves \<^verbatim>\<open>useDeepEqual\<close> at \<^verbatim>\<open>false\<close>, the key is the first argument,
  and the second call is a hit that returns \<^verbatim>\<open>'Hola, Mundo'\<close> without calling the
  underlying logic. This holds for every runtime and whatever the two calls read from
  outside.
\<close>

theorem default_configuration_getGreeting:
  "(let c = Memoize (ArgsOther HUndefined);
        this = Obj 1 [];
        r1 = memoized rt 0 c getGreeting e1 initial_state this [Str ''Hola'', Str ''Mundo''];
        r2 = memoized rt 0 c getGreeting e2 (state_after r1) this [Str ''Hola'', Str ''Mars'']
    in cfg_useDeepEqual c = False
       \<and> returned r1 = Inr (Str ''Hola, Mundo'') \<and> invoked r1
       \<and> returned r2 = Inr (Str ''Hola, Mundo'') \<and> \<not> invoked r2)"
  by (simp add: call_defs Let_def)

text \<open>
  With \<^verbatim>\<open>useDeepEqual: true\<close> written out, the same two calls do what the claim says.
\<close>

lemma deep_configuration_getGreeting:
  "(let c = Memoize (ArgsObject \<lparr> args_expiring = None, args_hashFunction = HUndefined,
                                  args_tags = None, args_useDeepEqual = Some True \<rparr>);
        this = Obj 1 [];
        r1 = memoized (runtime_of tn) 0 c getGreeting e1 initial_state this
               [Str ''Hola'', Str ''Mundo''];
        r2 = memoized (runtime_of tn) 0 c getGreeting e2 (state_after r1) this
               [Str ''Hola'', Str ''Mars'']
    in returned r1 = Inr (Str ''Hola, Mundo'') \<and> invoked r1
       \<and> returned r2 = Inr (Str ''Hola, Mars'') \<and> invoked r2)"
  by (simp add: call_defs Let_def runtime_of_def deep_equal_def)

subsection \<open>Registration leaves the stores alone\<close>

lemma register_wrappers_maps [simp]:
  "deep_maps (register_wrappers member i ts st) = deep_maps st"
  "shallow_maps (register_wrappers member i ts st) = shallow_maps st"
  by (induction ts arbitrary: st) auto

lemma register_map_maps [simp]:
  "deep_maps (register_map member i ts st) = deep_maps st"
  "shallow_maps (register_map member i ts st) = shallow_maps st"
  by (induction ts arbitrary: st) auto

lemma not_truthy_cases: "\<not> truthy hf \<Longrightarrow> hf = HUndefined \<or> hf = HBool False"
  by (cases hf) auto

subsection \<open>The default key in deep mode\<close>

text \<open>
  C2 (as amended). In deep mode, with \<^verbatim>\<open>hashFunction\<close> set to \<^verbatim>\<open>true\<close> the key is the
  argument list, whatever its length. With no \<^verbatim>\<open>hashFunction\<close> (absent or \<^verbatim>\<open>false\<close>)
  the key is the receiver when there is no argument, the argument itself when there is
  exactly one, and the argument list when there are two or more. The key is what the store
  files the result under: on an instance whose store has not been made yet, a call of a
  member without expiration that computes \<open>v\<close> leaves exactly one entry, with the derived
  key and \<open>v\<close>.
\<close>

theorem deep_mode_default_key:
  "deep_hashKey (HBool True) this args a = Inr (Arr a args) \<and>
   (\<not> truthy hf \<longrightarrow>
      deep_hashKey hf this [] a = Inr this \<and>
      deep_hashKey hf this [x] a = Inr x \<and>
      deep_hashKey hf this (x # y # zs) a = Inr (Arr a (x # y # zs))) \<and>
   (address_of this = Some i \<and> deep_maps st (member, i) = None \<and>
    deep_hashKey hf this args (addr_args e) = Inr k \<and>
    originalMethod this args = Inr v \<and> (case duration of None \<Rightarrow> 0 | Some n \<Rightarrow> n) \<le> 0 \<longrightarrow>
      deep_entries (state_after
         (getNewFunction rt member originalMethod hf duration tags True e st this args)) (member, i)
       = [(serial_value e, (k, v))])"
proof (intro conjI impI)
  show "deep_hashKey (HBool True) this args a = Inr (Arr a args)"
    by (simp add: deep_hashKey_def)
next
  assume "\<not> truthy hf"
  then have hf: "hf = HUndefined \<or> hf = HBool False" by (rule not_truthy_cases)
  from hf show "deep_hashKey hf this [] a = Inr this" by (auto simp: deep_hashKey_def)
  from hf show "deep_hashKey hf this [x] a = Inr x" by (auto simp: deep_hashKey_def)
  from hf show "deep_hashKey hf this (x # y # zs) a = Inr (Arr a (x # y # zs))"
    by (auto simp: deep_hashKey_def)
next
  assume h: "address_of this = Some i \<and> deep_maps st (member, i) = None \<and>
    deep_hashKey hf this args (addr_args e) = Inr k \<and>
    originalMethod this args = Inr v \<and> (case duration of None \<Rightarrow> 0 | Some n \<Rightarrow> n) \<le> 0"
  then show "deep_entries (state_after
         (getNewFunction rt member originalMethod hf duration tags True e st this args)) (member, i)
       = [(serial_value e, (k, v))]"
    by (cases tags)
       (simp_all add: getNewFunction_def deep_call_def deep_lookup_def isExpired_def Let_def
          state_after_def deep_entries_def DeepEqualMap_set_def)
qed

theorem deep_mode_default_key_witness:
  "deep_hashKey HUndefined (Obj 1 []) [] 7 = Inr (Obj 1 []) \<and>
   deep_hashKey HUndefined (Obj 1 []) [Num 5] 7 = Inr (Num 5) \<and>
   deep_hashKey HUndefined (Obj 1 []) [Num 5, Num 6] 7 = Inr (Arr 7 [Num 5, Num 6]) \<and>
   deep_entries (state_after
     (getNewFunction (runtime_of (\<lambda>v. None)) 0 getGreeting HUndefined None None True
        \<lparr> now_check = 0, now_store = 0, serial_value = ''s1'', serial_stamp = ''s2'',
          addr_args = 7, addr_stamp = 8 \<rparr> initial_state (Obj 1 []) [Str ''Hola''])) (0, 1)
     = [(''s1'', (Str ''Hola'', Str ''Hola, undefined''))]"
  using deep_mode_default_key [of "Obj 1 []" "[Str ''Hola'']" 7 HUndefined "Num 5" "Num 6" "[]" 1
      initial_state 0
      "\<lparr> now_check = 0, now_store = 0, serial_value = ''s1'', serial_stamp = ''s2'',
          addr_args = 7, addr_stamp = 8 \<rparr>" "Str ''Hola''" getGreeting "Str ''Hola, undefined''" None
      "runtime_of (\<lambda>v. None)" None]
  by (simp add: initial_state_def getGreeting_def argument_def deep_hashKey_def)

text \<open>
  The claim as first stated fails: a deep member with no \<^verbatim>\<open>hashFunction\<close>, called with no
  argument, files its result under the receiver and not under an empty argument list;
  called with one argument, it files the result under that argument and not under a list.
\<close>

theorem deep_mode_key_counterexample:
  "deep_hashKey HUndefined (Obj 1 []) [] 7 = Inr (Obj 1 []) \<and>
   deep_hashKey HUndefined (Obj 1 []) [] 7 \<noteq> Inr (Arr 7 []) \<and>
   deep_hashKey HUndefined (Obj 1 []) [Num 5] 7 = Inr (Num 5) \<and>
   deep_hashKey HUndefined (Obj 1 []) [Num 5] 7 \<noteq> Inr (Arr 7 [Num 5]) \<and>
   deep_entries (state_after
     (getNewFunction (runtime_of (\<lambda>v. None)) 0 getGreeting HUndefined None None True
        \<lparr> now_check = 0, now_store = 0, serial_value = ''s1'', serial_stamp = ''s2'',
          addr_args = 7, addr_stamp = 8 \<rparr> initial_state (Obj 1 []) [])) (0, 1)
     = [(''s1'', (Obj 1 [], Str ''undefined, undefined''))]"
  by (simp add: call_defs Let_def runtime_of_def)

subsection \<open>The built-in Map under SameValueZero\<close>

lemma SameValueZero_refl [simp]: "SameValueZero x x"
  by (cases x) (simp_all add: SameValueZero_def)

lemma SameValueZero_sym: "SameValueZero x y \<Longrightarrow> SameValueZero y x"
  by (cases x; cases y) (simp_all add: SameValueZero_def)

lemma SameValueZero_trans: "SameValueZero x y \<Longrightarrow> SameValueZero y z \<Longrightarrow> SameValueZero x z"
  by (cases x; cases y; cases z) (simp_all add: SameValueZero_def)

lemma SameValueZero_Str [simp]: "SameValueZero (Str s) k = (k = Str s)"
  by (cases k) (auto simp add: SameValueZero_def)

lemma timestampKey_differs [simp]: "\<not> SameValueZero (shallow_timestampKey k) k"
  by (cases k) (simp_all add: shallow_timestampKey_def)

lemma timestampKey_differs' [simp]: "\<not> SameValueZero k (shallow_timestampKey k)"
  using SameValueZero_sym timestampKey_differs by blast

lemma Map_has_set:
  assumes sym: "\<And>x y. same x y \<Longrightarrow> same y x"
    and trans: "\<And>x y z. same x y \<Longrightarrow> same y z \<Longrightarrow> same x z"
  shows "Map_has same (Map_set same m k v) k' = (same k k' \<or> Map_has same m k')"
proof (induction m)
  case Nil
  show ?case by simp
next
  case (Cons p m)
  obtain k0 v0 where p: "p = (k0, v0)" by (cases p)
  show ?case
  proof (cases "same k0 k")
    case True
    then have "same k k' \<longleftrightarrow> same k0 k'"
      using sym trans by blast
    with True p show ?thesis by auto
  next
    case False
    have "same k0 k' \<Longrightarrow> same k k' \<Longrightarrow> False"
      using False sym trans by blast
    with False p Cons.IH show ?thesis by auto
  qed
qed

lemma Map_get_set:
  assumes sym: "\<And>x y. same x y \<Longrightarrow> same y x"
    and trans: "\<And>x y z. same x y \<Longrightarrow> same y z \<Longrightarrow> same x z"
  shows "Map_get same (Map_set same m k v) k' = (if same k k' then Some v else Map_get same m k')"
proof (induction m)
  case Nil
  show ?case by simp
next
  case (Cons p m)
  obtain k0 v0 where p: "p = (k0, v0)" by (cases p)
  show ?case
  proof (cases "same k0 k")
    case True
    then have "same k k' \<longleftrightarrow> same k0 k'"
      using sym trans by blast
    with True p show ?thesis by auto
  next
    case False
    have "same k0 k' \<Longrightarrow> same k k' \<Longrightarrow> False"
      using False sym trans by blast
    with False p Cons.IH show ?thesis by auto
  qed
qed

lemma shallow_has_set [simp]:
  "Map_has SameValueZero (Map_set SameValueZero m k v) k' = (SameValueZero k k' \<or> Map_has SameValueZero m k')"
  by (rule Map_has_set) (blast intro: SameValueZero_sym SameValueZero_trans)+

lemma shallow_get_set [simp]:
  "Map_get_value (Map_set SameValueZero m k v) k' = (if SameValueZero k k' then v else Map_get_value m k')"
  unfolding Map_get_value_def
  by (subst Map_get_set) (auto intro: SameValueZero_sym SameValueZero_trans)

lemma shallow_lookup_this_eq:
  "duration \<le> 0 \<Longrightarrow>
   shallow_lookup_this originalMethod myMap this args =
   shallow_lookup rt originalMethod duration e myMap this this args"
  by (simp add: shallow_lookup_this_def shallow_lookup_def isExpired_def Let_def split: sum.splits)

lemma shallow_call_key:
  "address_of this = Some i \<Longrightarrow>
   shallow_call rt member originalMethod hashFunction duration tags e st this args =
     (let myMap = shallow_entries st (member, i);
          st1 = st\<lparr> shallow_maps := (shallow_maps st)((member, i) \<mapsto> myMap) \<rparr>;
          st2 = (case tags of None \<Rightarrow> st1 | Some ts \<Rightarrow> register_map member i ts st1)
      in case shallow_key hashFunction duration this args of
           Inl x \<Rightarrow> (Inl x, False, st2)
         | Inr hashKey \<Rightarrow>
             (case shallow_lookup rt originalMethod duration e myMap hashKey this args of
                (r, called, m') \<Rightarrow>
                  (r, called, st2\<lparr> shallow_maps := (shallow_maps st2)((member, i) \<mapsto> m') \<rparr>)))"
  by (simp add: shallow_call_def shallow_key_def shallow_entries_def Let_def
        shallow_lookup_this_eq [where rt = rt and e = e and duration = duration])

lemma shallow_lookup_again:
  assumes "shallow_lookup rt orig1 d e1 m k this args1 = (Inr v, c1, m1)"
    and "d \<le> 0 \<or> (c1 \<and> now_check e2 - now_store e1 \<le> d)"
  shows "shallow_lookup rt orig2 d e2 m1 k this args2 = (Inr v, False, m1)"
  using assms
  by (auto simp add: shallow_lookup_def isExpired_def Let_def split: if_splits sum.splits)

subsection \<open>The map inside a DeepEqualMap\<close>

lemma Map_set_mem: "x \<in> set (Map_set (=) m s y) \<Longrightarrow> x = (s, y) \<or> x \<in> set m"
  by (induction m) (auto split: if_splits)

lemma Map_set_new: "(s, y) \<in> set (Map_set (=) m s y)"
  by (induction m) auto

lemma Map_set_keep: "(s', x) \<in> set m \<Longrightarrow> s' \<noteq> s \<Longrightarrow> (s', x) \<in> set (Map_set (=) m s y)"
  by (induction m) auto

lemma Map_set_serials:
  "map fst (Map_set (=) m s y) = (if s \<in> set (map fst m) then map fst m else map fst m @ [s])"
proof (induction m)
  case Nil
  show ?case by simp
next
  case (Cons p m)
  obtain s0 x0 where p: "p = (s0, x0)" by (cases p)
  show ?case
  proof (cases "s0 = s")
    case True
    with p show ?thesis by simp
  next
    case False
    with p Cons.IH show ?thesis by simp
  qed
qed

lemma Map_set_distinct: "distinct (map fst m) \<Longrightarrow> distinct (map fst (Map_set (=) m s y))"
  by (simp add: Map_set_serials)

lemma Map_delete_mem: "x \<in> set (Map_delete (=) m s) \<Longrightarrow> x \<in> set m"
  by (induction m) (auto split: if_splits)

lemma Map_delete_keep: "(s', x) \<in> set m \<Longrightarrow> s' \<noteq> s \<Longrightarrow> (s', x) \<in> set (Map_delete (=) m s)"
  by (induction m) auto

lemma Map_delete_serials: "map fst (Map_delete (=) m s) = remove1 s (map fst m)"
proof (induction m)
  case Nil
  show ?case by simp
next
  case (Cons p m)
  obtain s0 x0 where p: "p = (s0, x0)" by (cases p)
  with Cons.IH show ?case by simp
qed

lemma Map_delete_distinct: "distinct (map fst m) \<Longrightarrow> distinct (map fst (Map_delete (=) m s))"
  by (simp add: Map_delete_serials)

lemma Map_delete_gone:
  assumes "distinct (map fst m)"
  shows "(s, x) \<notin> set (Map_delete (=) m s)"
proof
  assume "(s, x) \<in> set (Map_delete (=) m s)"
  then have "fst (s, x) \<in> fst ` set (Map_delete (=) m s)" by (rule imageI)
  then have "s \<in> set (map fst (Map_delete (=) m s))" by simp
  with assms show False by (simp add: Map_delete_serials)
qed

lemma has_iff:
  "DeepEqualMap_has eq m key \<longleftrightarrow> (\<exists>s k v. (s, (k, v)) \<in> set m \<and> eq k key)"
proof (induction m)
  case Nil
  show ?case by simp
next
  case (Cons p m)
  obtain s0 k0 v0 where p: "p = (s0, (k0, v0))" by (cases p) auto
  show ?case
  proof (cases "eq k0 key")
    case True
    with p show ?thesis by auto
  next
    case False
    with p Cons.IH show ?thesis by auto
  qed
qed

lemma get_unique:
  assumes "DeepEqualMap_has eq m key"
    and "\<And>s k v'. (s, (k, v')) \<in> set m \<Longrightarrow> eq k key \<Longrightarrow> v' = v"
  shows "DeepEqualMap_get eq m key = v"
  using assms
proof (induction m)
  case Nil
  then show ?case by simp
next
  case (Cons p m)
  obtain s0 k0 v0 where p: "p = (s0, (k0, v0))" by (cases p) auto
  show ?case
  proof (cases "eq k0 key")
    case True
    with p Cons.prems(2) [of s0 k0 v0] show ?thesis by simp
  next
    case False
    with p Cons.prems(1) have "DeepEqualMap_has eq m key" by simp
    moreover have "\<And>s k v'. (s, (k, v')) \<in> set m \<Longrightarrow> eq k key \<Longrightarrow> v' = v"
      using Cons.prems(2) by (meson list.set_intros(2))
    ultimately have "DeepEqualMap_get eq m key = v" by (rule Cons.IH)
    with False p show ?thesis by simp
  qed
qed

lemma first_match_None: "first_match eq m key = None \<longleftrightarrow> \<not> DeepEqualMap_has eq m key"
proof (induction m)
  case Nil
  show ?case by simp
next
  case (Cons p m)
  obtain s0 k0 v0 where p: "p = (s0, (k0, v0))" by (cases p) auto
  with Cons.IH show ?case by simp
qed

lemma first_match_Some:
  "first_match eq m key = Some s \<Longrightarrow> \<exists>k v. (s, (k, v)) \<in> set m \<and> eq k key"
proof (induction m)
  case Nil
  then show ?case by simp
next
  case (Cons p m)
  obtain s0 k0 v0 where p: "p = (s0, (k0, v0))" by (cases p) auto
  show ?case
  proof (cases "eq k0 key")
    case True
    with p Cons.prems show ?thesis by auto
  next
    case False
    with p Cons.prems have "first_match eq m key = Some s" by simp
    then obtain k v where "(s, (k, v)) \<in> set m \<and> eq k key" using Cons.IH by blast
    then show ?thesis by auto
  qed
qed

subsection \<open>The invariant of DeepEqualMap\<close>

lemma unique_keysD:
  assumes sym: "symp eq" and u: "unique_keys eq m"
    and e1: "(s1, (k1, v1)) \<in> set m" and e2: "(s2, (k2, v2)) \<in> set m" and eq: "eq k1 k2"
  shows "(s1, (k1, v1)) = (s2, (k2, v2))"
  using u e1 e2
proof (induction m)
  case Nil
  then show ?case by simp
next
  case (Cons p m)
  obtain s k v where p: "p = (s, (k, v))" by (cases p) auto
  from Cons.prems(1) p have nohas: "\<not> DeepEqualMap_has eq m k" and um: "unique_keys eq m"
    by simp_all
  from nohas have no: "\<And>s' k' v'. (s', (k', v')) \<in> set m \<Longrightarrow> \<not> eq k' k"
    unfolding has_iff by blast
  from sym eq have eq': "eq k2 k1" by (rule sympD)
  consider (both) "(s1, (k1, v1)) = p" "(s2, (k2, v2)) = p"
    | (first) "(s1, (k1, v1)) = p" "(s2, (k2, v2)) \<in> set m"
    | (second) "(s1, (k1, v1)) \<in> set m" "(s2, (k2, v2)) = p"
    | (rest) "(s1, (k1, v1)) \<in> set m" "(s2, (k2, v2)) \<in> set m"
    using Cons.prems(2,3) by auto
  then show ?case
  proof cases
    case both
    then show ?thesis by simp
  next
    case first
    with p have "k1 = k" by simp
    with eq' no [OF first(2)] show ?thesis by simp
  next
    case second
    with p have "k2 = k" by simp
    with eq no [OF second(1)] show ?thesis by simp
  next
    case rest
    with um show ?thesis by (rule Cons.IH)
  qed
qed

lemma unique_keysI:
  assumes "distinct (map fst m)"
    and "\<And>s1 k1 v1 s2 k2 v2.
           (s1, (k1, v1)) \<in> set m \<Longrightarrow> (s2, (k2, v2)) \<in> set m \<Longrightarrow> eq k1 k2 \<Longrightarrow> s1 = s2"
  shows "unique_keys eq m"
  using assms
proof (induction m)
  case Nil
  show ?case by simp
next
  case (Cons p m)
  obtain s k v where p: "p = (s, (k, v))" by (cases p) auto
  from Cons.prems(1) p have fresh: "\<And>x. (s, x) \<notin> set m" and d: "distinct (map fst m)"
    by (auto simp: image_iff)
  have pw: "\<And>s1 k1 v1 s2 k2 v2.
           (s1, (k1, v1)) \<in> set m \<Longrightarrow> (s2, (k2, v2)) \<in> set m \<Longrightarrow> eq k1 k2 \<Longrightarrow> s1 = s2"
    using Cons.prems(2) by (meson list.set_intros(2))
  from d pw have um: "unique_keys eq m" by (rule Cons.IH)
  have "\<not> DeepEqualMap_has eq m k"
  proof
    assume "DeepEqualMap_has eq m k"
    then obtain s' k' v' where in_m: "(s', (k', v')) \<in> set m" and m: "eq k' k"
      unfolding has_iff by blast
    have "(s', (k', v')) \<in> set (p # m)" using in_m by simp
    moreover have "(s, (k, v)) \<in> set (p # m)" using p by simp
    ultimately have "s' = s" using m by (rule Cons.prems(2))
    with in_m fresh show False by simp
  qed
  with um p show ?case by simp
qed

text \<open>What \<^verbatim>\<open>set\<close> leaves in the map: the new entry, and old entries that do not match.\<close>

lemma set_new_entry: "(s, (k, v)) \<in> set (DeepEqualMap_set eq m k v s)"
  by (simp add: DeepEqualMap_set_def Map_set_new)

lemma set_distinct:
  "distinct (map fst m) \<Longrightarrow> distinct (map fst (DeepEqualMap_set eq m k v s))"
  by (simp add: DeepEqualMap_set_def Map_set_distinct Map_delete_distinct split: option.splits)

lemma set_old_entry:
  assumes eqv: "equivp eq" and inv: "DeepEqualMap_inv eq m"
    and mem: "(s', (k', v')) \<in> set (DeepEqualMap_set eq m k v s)"
    and old: "(s', (k', v')) \<noteq> (s, (k, v))"
  shows "(s', (k', v')) \<in> set m \<and> \<not> eq k' k"
proof -
  from eqv have sym: "symp eq" and trans: "transp eq"
    by (simp_all add: equivp_reflp_symp_transp)
  from inv have d: "distinct (map fst m)" and u: "unique_keys eq m"
    by (simp_all add: DeepEqualMap_inv_def)
  show ?thesis
  proof (cases "first_match eq m k")
    case None
    with mem old have in_m: "(s', (k', v')) \<in> set m"
      by (auto simp: DeepEqualMap_set_def dest: Map_set_mem)
    from None have "\<not> DeepEqualMap_has eq m k" by (simp add: first_match_None)
    with in_m show ?thesis unfolding has_iff by blast
  next
    case (Some s0)
    then obtain k0 v0 where e0: "(s0, (k0, v0)) \<in> set m" and m0: "eq k0 k"
      using first_match_Some by blast
    from mem old Some have in_d: "(s', (k', v')) \<in> set (Map_delete (=) m s0)"
      by (auto simp: DeepEqualMap_set_def dest: Map_set_mem)
    then have in_m: "(s', (k', v')) \<in> set m" by (rule Map_delete_mem)
    have "\<not> eq k' k"
    proof
      assume "eq k' k"
      moreover from sym m0 have "eq k k0" by (rule sympD)
      ultimately have "eq k' k0" using trans by (blast dest: transpD)
      with sym u in_m e0 have "(s', (k', v')) = (s0, (k0, v0))" by (rule unique_keysD)
      with in_d Map_delete_gone [OF d] show False by simp
    qed
    with in_m show ?thesis by simp
  qed
qed

lemma set_inv:
  assumes eqv: "equivp eq" and inv: "DeepEqualMap_inv eq m"
  shows "DeepEqualMap_inv eq (DeepEqualMap_set eq m k v s)"
proof -
  let ?r = "DeepEqualMap_set eq m k v s"
  from eqv have sym: "symp eq" by (simp add: equivp_reflp_symp_transp)
  from inv have d: "distinct (map fst m)" and u: "unique_keys eq m"
    by (simp_all add: DeepEqualMap_inv_def)
  have dr: "distinct (map fst ?r)" using d by (rule set_distinct)
  have "unique_keys eq ?r"
  proof (rule unique_keysI [OF dr])
    fix s1 k1 v1 s2 k2 v2
    assume e1: "(s1, (k1, v1)) \<in> set ?r" and e2: "(s2, (k2, v2)) \<in> set ?r" and eq: "eq k1 k2"
    show "s1 = s2"
    proof (cases "(s1, (k1, v1)) = (s, (k, v))")
      case new1: True
      show ?thesis
      proof (cases "(s2, (k2, v2)) = (s, (k, v))")
        case True
        with new1 show ?thesis by simp
      next
        case False
        with set_old_entry [OF eqv inv e2] have "\<not> eq k2 k" by simp
        moreover from new1 eq have "eq k k2" by simp
        ultimately show ?thesis using sym by (blast dest: sympD)
      qed
    next
      case old1: False
      with set_old_entry [OF eqv inv e1] have m1: "(s1, (k1, v1)) \<in> set m" and n1: "\<not> eq k1 k"
        by simp_all
      show ?thesis
      proof (cases "(s2, (k2, v2)) = (s, (k, v))")
        case True
        with eq n1 show ?thesis by simp
      next
        case False
        with set_old_entry [OF eqv inv e2] have "(s2, (k2, v2)) \<in> set m" by simp
        with sym u m1 have "(s1, (k1, v1)) = (s2, (k2, v2))" using eq by (rule unique_keysD)
        then show ?thesis by simp
      qed
    qed
  qed
  with dr show ?thesis by (simp add: DeepEqualMap_inv_def)
qed

lemma has_after_set:
  "eq k k' \<Longrightarrow> DeepEqualMap_has eq (DeepEqualMap_set eq m k v s) k'"
  unfolding has_iff using set_new_entry by blast

lemma get_after_set:
  assumes eqv: "equivp eq" and inv: "DeepEqualMap_inv eq m" and m: "eq k k'"
  shows "DeepEqualMap_get eq (DeepEqualMap_set eq m k v s) k' = v"
proof (rule get_unique)
  show "DeepEqualMap_has eq (DeepEqualMap_set eq m k v s) k'" using m by (rule has_after_set)
next
  fix s0 k0 v0
  assume mem: "(s0, (k0, v0)) \<in> set (DeepEqualMap_set eq m k v s)" and m0: "eq k0 k'"
  from eqv have sym: "symp eq" and trans: "transp eq"
    by (simp_all add: equivp_reflp_symp_transp)
  from sym m have "eq k' k" by (rule sympD)
  with m0 trans have "eq k0 k" by (blast dest: transpD)
  with set_old_entry [OF eqv inv mem] show "v0 = v" by auto
qed

lemma filter_single:
  "distinct xs \<Longrightarrow> x \<in> set xs \<Longrightarrow> P x \<Longrightarrow> (\<And>y. y \<in> set xs \<Longrightarrow> P y \<Longrightarrow> y = x) \<Longrightarrow>
   filter P xs = [x]"
proof (induction xs)
  case Nil
  then show ?case by simp
next
  case (Cons a xs)
  show ?case
  proof (cases "a = x")
    case True
    have "filter P xs = []"
    proof (rule ccontr)
      assume "filter P xs \<noteq> []"
      then obtain y where "y \<in> set xs" "P y"
        by (metis filter_False)
      with Cons.prems(4) [of y] have "y = x" by simp
      with \<open>y \<in> set xs\<close> True Cons.prems(1) show False by simp
    qed
    with True Cons.prems(3) show ?thesis by simp
  next
    case False
    with Cons.prems have "x \<in> set xs" "distinct xs" by simp_all
    moreover have "\<And>y. y \<in> set xs \<Longrightarrow> P y \<Longrightarrow> y = x" using Cons.prems(4) by simp
    ultimately have "filter P xs = [x]" using Cons.prems(3) Cons.IH by blast
    moreover have "\<not> P a" using Cons.prems(4) [of a] False by auto
    ultimately show ?thesis by simp
  qed
qed

lemma matching_after_set:
  assumes eqv: "equivp eq" and inv: "DeepEqualMap_inv eq m" and m: "eq k k'"
  shows "matching eq (DeepEqualMap_set eq m k v s) k' = [(s, (k, v))]"
  unfolding matching_def
proof (rule filter_single)
  from inv have "distinct (map fst (DeepEqualMap_set eq m k v s))"
    by (simp add: DeepEqualMap_inv_def set_distinct)
  then show "distinct (DeepEqualMap_set eq m k v s)" by (rule distinct_map [THEN iffD1, THEN conjunct1])
  show "(s, (k, v)) \<in> set (DeepEqualMap_set eq m k v s)" by (rule set_new_entry)
  show "eq (fst (snd (s, (k, v)))) k'" using m by simp
next
  fix y
  assume mem: "y \<in> set (DeepEqualMap_set eq m k v s)" and my: "eq (fst (snd y)) k'"
  obtain s0 k0 v0 where y: "y = (s0, (k0, v0))" by (cases y) auto
  from eqv have sym: "symp eq" and trans: "transp eq"
    by (simp_all add: equivp_reflp_symp_transp)
  from sym m have "eq k' k" by (rule sympD)
  with my y trans have "eq k0 k" by (auto dest: transpD)
  with set_old_entry [OF eqv inv, of s0 k0 v0 k v s] mem y show "y = (s, (k, v))" by auto
qed

subsection \<open>One entry for each key shape\<close>

lemma equivp_deep_equal: "equivp deep_equal"
  by (auto intro!: equivpI reflpI sympI transpI simp: deep_equal_def)

lemma inv_empty: "DeepEqualMap_inv eq []"
  by (simp add: DeepEqualMap_inv_def)

lemma run_sets_inv:
  "equivp eq \<Longrightarrow> DeepEqualMap_inv eq m \<Longrightarrow> DeepEqualMap_inv eq (run_sets eq m ops)"
proof (induction ops arbitrary: m)
  case Nil
  then show ?case by simp
next
  case (Cons op ops)
  obtain k v s where op: "op = (k, v, s)" by (cases op) auto
  from Cons.prems have "DeepEqualMap_inv eq (DeepEqualMap_set eq m k v s)" by (rule set_inv)
  with Cons.prems(1) have "DeepEqualMap_inv eq (run_sets eq (DeepEqualMap_set eq m k v s) ops)"
    by (rule Cons.IH)
  with op show ?case by simp
qed

lemma matching_at_most_one:
  assumes eqv: "equivp eq" and inv: "DeepEqualMap_inv eq m"
  shows "length (matching eq m key) \<le> 1"
proof (cases "matching eq m key")
  case Nil
  then show ?thesis by simp
next
  case (Cons e es)
  from eqv have sym: "symp eq" and trans: "transp eq"
    by (simp_all add: equivp_reflp_symp_transp)
  from inv have d: "distinct (map fst m)" and u: "unique_keys eq m"
    by (simp_all add: DeepEqualMap_inv_def)
  from d have "distinct m" by (rule distinct_map [THEN iffD1, THEN conjunct1])
  then have dm: "distinct (matching eq m key)" by (simp add: matching_def)
  have "es = []"
  proof (cases es)
    case Nil
    then show ?thesis .
  next
    case (Cons e' es')
    obtain s1 k1 v1 where e: "e = (s1, (k1, v1))" by (cases e) auto
    obtain s2 k2 v2 where e': "e' = (s2, (k2, v2))" by (cases e') auto
    have "e \<in> set (matching eq m key)" "e' \<in> set (matching eq m key)"
      using \<open>matching eq m key = e # es\<close> Cons by simp_all
    then have in1: "e \<in> set m" and m1: "eq k1 key" and in2: "e' \<in> set m" and m2: "eq k2 key"
      using e e' by (simp_all add: matching_def)
    from sym m2 have "eq key k2" by (rule sympD)
    with m1 trans have "eq k1 k2" by (blast dest: transpD)
    with sym u in1 in2 e e' have "e = e'" by (auto dest: unique_keysD)
    with dm \<open>matching eq m key = e # es\<close> Cons show ?thesis by simp
  qed
  with Cons show ?thesis by simp
qed

subsection \<open>A deep lookup after a deep lookup\<close>


lemma serial_determines_entry:
  "distinct (map fst m) \<Longrightarrow> (s, x) \<in> set m \<Longrightarrow> (s, y) \<in> set m \<Longrightarrow> x = y"
  by (rule eq_key_imp_eq_value)

lemma set_keeps_entry:
  assumes d: "distinct (map fst m)" and mem: "(s', (k', v')) \<in> set m"
    and nomatch: "\<not> eq k' k" and other: "s' \<noteq> s"
  shows "(s', (k', v')) \<in> set (DeepEqualMap_set eq m k v s)"
proof (cases "first_match eq m k")
  case None
  with mem other show ?thesis by (simp add: DeepEqualMap_set_def Map_set_keep)
next
  case (Some s0)
  then obtain k0 v0 where e0: "(s0, (k0, v0)) \<in> set m" and m0: "eq k0 k"
    using first_match_Some by blast
  have "s' \<noteq> s0"
  proof
    assume "s' = s0"
    with d mem e0 have "(k', v') = (k0, v0)" by (auto dest: serial_determines_entry)
    with m0 nomatch show False by simp
  qed
  with mem have "(s', (k', v')) \<in> set (Map_delete (=) m s0)" by (rule Map_delete_keep)
  with other Some show ?thesis by (simp add: DeepEqualMap_set_def Map_set_keep)
qed




subsection \<open>A call after a call\<close>

lemma getNewFunction_shallow:
  "getNewFunction rt member orig hf duration tags False e st this args =
   shallow_call rt member orig hf (duration_of duration) tags e st this args"
  by (simp add: getNewFunction_def duration_of_def)

lemma getNewFunction_deep:
  "getNewFunction rt member orig hf duration tags True e st this args =
   deep_call rt member orig hf (duration_of duration) tags e st this args"
  by (simp add: getNewFunction_def duration_of_def)

lemma shallow_call_result:
  fixes rt :: runtime and member :: nat and orig :: js_method and tags :: "string list option"
    and e :: env and st :: state and d :: int
  assumes "address_of this = Some i" and "shallow_key hf d this args = Inr k"
  defines "r \<equiv> shallow_call rt member orig hf d tags e st this args"
    and "l \<equiv> shallow_lookup rt orig d e (shallow_entries st (member, i)) k this args"
  shows "returned r = fst l" and "invoked r = fst (snd l)"
    and "shallow_entries (state_after r) (member, i) = snd (snd l)"
  using assms(1,2) unfolding r_def l_def
  by (cases tags; simp add: shallow_call_key Let_def returned_def invoked_def state_after_def
        shallow_entries_def split: prod.splits)+

lemma deep_call_result:
  fixes rt :: runtime and member :: nat and orig :: js_method and tags :: "string list option"
    and e :: env and st :: state and d :: int
  assumes "address_of this = Some i" and "deep_hashKey hf this args (addr_args e) = Inr k"
  defines "r \<equiv> deep_call rt member orig hf d tags e st this args"
    and "l \<equiv> deep_lookup rt orig d e (deep_entries st (member, i)) k this args"
  shows "returned r = fst l" and "invoked r = fst (snd l)"
    and "deep_entries (state_after r) (member, i) = snd (snd l)"
  using assms(1,2) unfolding r_def l_def
  by (cases tags; simp add: deep_call_def Let_def returned_def invoked_def state_after_def
        deep_entries_def split: prod.splits)+

lemma shallow_call_again:
  fixes rt :: runtime and member :: nat and orig1 orig2 :: js_method
    and tags :: "string list option" and e1 e2 :: env and st :: state and d :: int
  assumes obj: "address_of this = Some i"
    and k1: "shallow_key hf d this args1 = Inr k" and k2: "shallow_key hf d this args2 = Inr k"
    and r1: "r1 = shallow_call rt member orig1 hf d tags e1 st this args1"
    and ret: "returned r1 = Inr v"
    and fresh: "d \<le> 0 \<or> (invoked r1 \<and> now_check e2 - now_store e1 \<le> d)"
  defines "r2 \<equiv> shallow_call rt member orig2 hf d tags e2 (state_after r1) this args2"
  shows "returned r2 = Inr v" and "\<not> invoked r2"
    and "shallow_entries (state_after r2) (member, i) = shallow_entries (state_after r1) (member, i)"
proof -
  let ?l1 = "shallow_lookup rt orig1 d e1 (shallow_entries st (member, i)) k this args1"
  let ?m1 = "shallow_entries (state_after r1) (member, i)"
  have "(returned r1, invoked r1, ?m1) = ?l1"
    unfolding r1 by (simp only: shallow_call_result [OF obj k1] prod.collapse)
  with ret have l1: "?l1 = (Inr v, invoked r1, ?m1)" by simp
  from l1 fresh have l2: "shallow_lookup rt orig2 d e2 ?m1 k this args2 = (Inr v, False, ?m1)"
    by (rule shallow_lookup_again)
  show "returned r2 = Inr v"
    unfolding r2_def by (simp only: shallow_call_result(1) [OF obj k2] l2 fst_conv)
  show "\<not> invoked r2"
    unfolding r2_def by (simp only: shallow_call_result(2) [OF obj k2] l2 fst_conv snd_conv simp_thms)
  show "shallow_entries (state_after r2) (member, i) = ?m1"
    unfolding r2_def by (simp only: shallow_call_result(3) [OF obj k2] l2 snd_conv)
qed


subsection \<open>A result of undefined is a result\<close>




subsection \<open>Structurally equal arguments\<close>

lemma has_matching: "DeepEqualMap_has eq m key \<longleftrightarrow> matching eq m key \<noteq> []"
  unfolding has_iff matching_def filter_empty_conv by force



lemma deep_lookup_inv:
  assumes "equivp (rt_equal rt)" and "DeepEqualMap_inv (rt_equal rt) m"
  shows "DeepEqualMap_inv (rt_equal rt) (snd (snd (deep_lookup rt orig d e m k this args)))"
  using assms by (simp add: deep_lookup_def Let_def set_inv split: sum.splits)




subsection \<open>Expiration\<close>

lemma isExpired_absent: "0 < d \<Longrightarrow> isExpired rt d now False t"
  by (simp add: isExpired_def)

lemma isExpired_Num: "0 < d \<Longrightarrow> isExpired rt d now True (Num t) \<longleftrightarrow> now - t > d"
  by (simp add: isExpired_def)




subsection \<open>Failures\<close>

lemma deep_lookup_error:
  "fst (deep_lookup rt orig d e m k this args) = Inl x \<Longrightarrow>
   snd (snd (deep_lookup rt orig d e m k this args)) = m \<and> orig this args = Inl x"
  by (auto simp add: deep_lookup_def Let_def split: if_splits sum.splits)



lemma shallow_call_frame:
  "\<not> (address_of this = Some (snd p) \<and> fst p = member) \<Longrightarrow>
   shallow_entries (state_after (shallow_call rt member orig hf d tags e st this args)) p =
   shallow_entries st p"
  "deep_entries (state_after (shallow_call rt member orig hf d tags e st this args)) p = deep_entries st p"
proof -
  obtain m' i' where p: "p = (m', i')" by (cases p)
  show "shallow_entries (state_after (shallow_call rt member orig hf d tags e st this args)) p =
      shallow_entries st p"
    if "\<not> (address_of this = Some (snd p) \<and> fst p = member)"
    using that unfolding p
    by (cases "address_of this"; cases tags)
       (auto simp add: shallow_call_key Let_def state_after_def shallow_entries_def shallow_call_def
          split: sum.splits prod.splits)
  show "deep_entries (state_after (shallow_call rt member orig hf d tags e st this args)) p = deep_entries st p"
    by (cases "address_of this"; cases tags)
       (auto simp add: shallow_call_key Let_def state_after_def deep_entries_def shallow_call_def
          split: sum.splits prod.splits)
qed

lemma deep_call_frame:
  "\<not> (address_of this = Some (snd p) \<and> fst p = member) \<Longrightarrow>
   deep_entries (state_after (deep_call rt member orig hf d tags e st this args)) p =
   deep_entries st p"
  "shallow_entries (state_after (deep_call rt member orig hf d tags e st this args)) p = shallow_entries st p"
proof -
  obtain m' i' where p: "p = (m', i')" by (cases p)
  show "deep_entries (state_after (deep_call rt member orig hf d tags e st this args)) p =
      deep_entries st p"
    if "\<not> (address_of this = Some (snd p) \<and> fst p = member)"
    using that unfolding p
    by (cases "address_of this"; cases tags)
       (auto simp add: deep_call_def Let_def state_after_def deep_entries_def
          split: sum.splits prod.splits)
  show "shallow_entries (state_after (deep_call rt member orig hf d tags e st this args)) p = shallow_entries st p"
    by (cases "address_of this"; cases tags)
       (auto simp add: deep_call_def Let_def state_after_def shallow_entries_def
          split: sum.splits prod.splits)
qed


lemma deep_call_error_store:
  assumes "returned (deep_call rt member orig hf d tags e st this args) = Inl x"
  shows "deep_entries (state_after (deep_call rt member orig hf d tags e st this args)) p
         = deep_entries st p"
proof (cases "address_of this = Some (snd p) \<and> fst p = member")
  case False
  then show ?thesis by (rule deep_call_frame(1))
next
  case True
  obtain i where "p = (member, i)" using True by (cases p) auto
  with True have obj: "address_of this = Some i" and p: "p = (member, i)" by auto
  show ?thesis
  proof (cases "deep_hashKey hf this args (addr_args e)")
    case (Inl y)
    with obj show ?thesis
      unfolding p
      by (cases tags)
         (simp_all add: deep_call_def Let_def state_after_def deep_entries_def)
  next
    case (Inr k)
    note res = deep_call_result [OF obj Inr, of rt member orig d tags st]
    from assms res(1) have "fst (deep_lookup rt orig d e (deep_entries st (member, i)) k this args) = Inl x"
      by simp
    then have "snd (snd (deep_lookup rt orig d e (deep_entries st (member, i)) k this args))
               = deep_entries st (member, i)"
      by (rule deep_lookup_error [THEN conjunct1])
    with res(3) p show ?thesis by simp
  qed
qed





subsection \<open>The default key in shallow mode\<close>

lemma shallow_lookup_stored:
  assumes "fst (shallow_lookup rt orig d e m k this args) = Inr v"
  shows "Map_has SameValueZero (snd (snd (shallow_lookup rt orig d e m k this args))) k"
    and "Map_get_value (snd (snd (shallow_lookup rt orig d e m k this args))) k = v"
  using assms
  by (auto simp add: shallow_lookup_def Let_def split: if_splits sum.splits)

lemma shallow_default_key:
  assumes "\<not> truthy hf"
  shows "shallow_key hf d this (a # rest) = Inr a"
    and "shallow_key hf d this [] = Inr (if 0 < d then Undefined else this)"
  using not_truthy_cases [OF assms]
  by (auto simp add: shallow_key_def shallow_hashKey_def)

text \<open>
  C6 (as amended). For a shallow member with no key function and no use-all-arguments flag:
  the derived key is the first argument when at least one argument is passed; when no
  argument is passed it is the calling instance if the member has no expiration window,
  and \<^verbatim>\<open>undefined\<close> (the absent first argument) if it has one. The derived key is where a
  call that returns finds or files its result. So after a call with first argument \<open>a\<close>
  that returned \<open>v\<close>, a call with the same first argument and any other further
  arguments returns \<open>v\<close> and does not call the underlying logic; for a member with a
  window, the first call computed the value and the second comes within the window.
\<close>

theorem shallow_mode_default_key:
  "(\<not> truthy hf \<longrightarrow>
      shallow_key hf (duration_of duration) this (a # rest) = Inr a \<and>
      shallow_key hf (duration_of duration) this []
        = Inr (if 0 < duration_of duration then Undefined else this)) \<and>
   (let r = getNewFunction rt member orig hf duration tags False e st this args;
        m' = shallow_entries (state_after r) (member, i)
    in address_of this = Some i \<and> shallow_key hf (duration_of duration) this args = Inr k \<and>
       returned r = Inr v
       \<longrightarrow> Map_has SameValueZero m' k \<and> Map_get_value m' k = v) \<and>
   (let r1 = getNewFunction rt member orig1 hf duration tags False e1 st this (a # rest1);
        r2 = getNewFunction rt member orig2 hf duration tags False e2 (state_after r1) this (a # rest2)
    in address_of this = Some i \<and> \<not> truthy hf \<and> returned r1 = Inr v \<and>
       (duration_of duration \<le> 0 \<or>
        (invoked r1 \<and> now_check e2 - now_store e1 \<le> duration_of duration))
       \<longrightarrow> returned r2 = Inr v \<and> \<not> invoked r2)"
proof (intro conjI)
  show "\<not> truthy hf \<longrightarrow>
      shallow_key hf (duration_of duration) this (a # rest) = Inr a \<and>
      shallow_key hf (duration_of duration) this []
        = Inr (if 0 < duration_of duration then Undefined else this)"
    using shallow_default_key by blast
next
  let ?d = "duration_of duration"
  have "Map_has SameValueZero (shallow_entries (state_after r) (member, i)) k \<and>
        Map_get_value (shallow_entries (state_after r) (member, i)) k = v"
    if obj: "address_of this = Some i" and k: "shallow_key hf ?d this args = Inr k"
      and r: "r = shallow_call rt member orig hf ?d tags e st this args"
      and ret: "returned r = Inr v"
    for r
  proof -
    note res = shallow_call_result [OF obj k, of rt member orig tags e st]
    from ret have "fst (shallow_lookup rt orig ?d e (shallow_entries st (member, i)) k this args) = Inr v"
      unfolding r by (simp only: res(1))
    from shallow_lookup_stored [OF this] show ?thesis
      unfolding r by (simp only: res(3) simp_thms)
  qed
  then show "let r = getNewFunction rt member orig hf duration tags False e st this args;
        m' = shallow_entries (state_after r) (member, i)
    in address_of this = Some i \<and> shallow_key hf (duration_of duration) this args = Inr k \<and>
       returned r = Inr v
       \<longrightarrow> Map_has SameValueZero m' k \<and> Map_get_value m' k = v"
    unfolding Let_def getNewFunction_shallow by blast
next
  let ?d = "duration_of duration"
  have "returned r2 = Inr v \<and> \<not> invoked r2"
    if obj: "address_of this = Some i" and hf: "\<not> truthy hf"
      and r1: "r1 = shallow_call rt member orig1 hf ?d tags e1 st this (a # rest1)"
      and r2: "r2 = shallow_call rt member orig2 hf ?d tags e2 (state_after r1) this (a # rest2)"
      and ret: "returned r1 = Inr v"
      and fresh: "?d \<le> 0 \<or> (invoked r1 \<and> now_check e2 - now_store e1 \<le> ?d)"
    for r1 r2
    using shallow_call_again [OF obj
        shallow_default_key(1) [OF hf, where rest = rest1 and a = a and d = ?d and this = this]
        shallow_default_key(1) [OF hf, where rest = rest2 and a = a and d = ?d and this = this]
        r1 ret fresh, where ?orig2.0 = orig2]
    unfolding r2 by simp
  then show "let r1 = getNewFunction rt member orig1 hf duration tags False e1 st this (a # rest1);
        r2 = getNewFunction rt member orig2 hf duration tags False e2 (state_after r1) this (a # rest2)
    in address_of this = Some i \<and> \<not> truthy hf \<and> returned r1 = Inr v \<and>
       (duration_of duration \<le> 0 \<or>
        (invoked r1 \<and> now_check e2 - now_store e1 \<le> duration_of duration))
       \<longrightarrow> returned r2 = Inr v \<and> \<not> invoked r2"
    unfolding Let_def getNewFunction_shallow by blast
qed

theorem shallow_mode_default_key_witness:
  "shallow_key HUndefined (duration_of None) (Obj 2 []) [Str ''Hola'', Str ''Mundo''] = Inr (Str ''Hola'') \<and>
   shallow_key HUndefined (duration_of None) (Obj 2 []) [] = Inr (Obj 2 []) \<and>
   Map_has SameValueZero (shallow_entries (state_after
       (getNewFunction example_runtime 0 getGreeting HUndefined None None False
          env1 initial_state (Obj 2 []) [])) (0, 2)) (Obj 2 []) \<and>
   returned (getNewFunction example_runtime 0 getGreeting HUndefined None None False env2
      (state_after (getNewFunction example_runtime 0 getGreeting HUndefined None None False
          env1 initial_state (Obj 2 []) [Str ''Hola'', Str ''Mundo'']))
      (Obj 2 []) [Str ''Hola'', Str ''Mars'']) = Inr (Str ''Hola, Mundo'') \<and>
   \<not> invoked (getNewFunction example_runtime 0 getGreeting HUndefined None None False env2
      (state_after (getNewFunction example_runtime 0 getGreeting HUndefined None None False
          env1 initial_state (Obj 2 []) [Str ''Hola'', Str ''Mundo'']))
      (Obj 2 []) [Str ''Hola'', Str ''Mars''])"
proof -
  note ds = call_defs Let_def example_runtime_def runtime_of_def env1_def env2_def duration_of_def
  have r0: "returned (getNewFunction example_runtime 0 getGreeting HUndefined None None False
          env1 initial_state (Obj 2 []) []) = Inr (Str ''undefined, undefined'')"
    by (simp add: ds)
  have r1: "returned (getNewFunction example_runtime 0 getGreeting HUndefined None None False
          env1 initial_state (Obj 2 []) [Str ''Hola'', Str ''Mundo'']) = Inr (Str ''Hola, Mundo'')"
    by (simp add: ds)
  note key = shallow_mode_default_key [where hf = HUndefined and duration = None
      and this = "Obj 2 []" and i = 2 and rt = example_runtime and member = 0 and tags = None
      and st = initial_state and a = "Str ''Hola''", unfolded Let_def]
  have keys: "shallow_key HUndefined (duration_of None) (Obj 2 []) [Str ''Hola'', Str ''Mundo''] = Inr (Str ''Hola'')"
    "shallow_key HUndefined (duration_of None) (Obj 2 []) [] = Inr (Obj 2 [])"
    using key [where rest = "[Str ''Mundo'']", THEN conjunct1] by (simp_all add: duration_of_def)
  have stored: "Map_has SameValueZero (shallow_entries (state_after
       (getNewFunction example_runtime 0 getGreeting HUndefined None None False
          env1 initial_state (Obj 2 []) [])) (0, 2)) (Obj 2 [])"
    using key [where args = "[]" and k = "Obj 2 []" and orig = getGreeting and e = env1
        and v = "Str ''undefined, undefined''", THEN conjunct2, THEN conjunct1] keys(2) r0
    by simp
  have again: "returned (getNewFunction example_runtime 0 getGreeting HUndefined None None False env2
      (state_after (getNewFunction example_runtime 0 getGreeting HUndefined None None False
          env1 initial_state (Obj 2 []) [Str ''Hola'', Str ''Mundo'']))
      (Obj 2 []) [Str ''Hola'', Str ''Mars'']) = Inr (Str ''Hola, Mundo'')"
    "\<not> invoked (getNewFunction example_runtime 0 getGreeting HUndefined None None False env2
      (state_after (getNewFunction example_runtime 0 getGreeting HUndefined None None False
          env1 initial_state (Obj 2 []) [Str ''Hola'', Str ''Mundo'']))
      (Obj 2 []) [Str ''Hola'', Str ''Mars''])"
    using key [where ?rest1.0 = "[Str ''Mundo'']" and ?rest2.0 = "[Str ''Mars'']"
        and ?orig1.0 = getGreeting and ?orig2.0 = getGreeting and ?e1.0 = env1 and ?e2.0 = env2
        and v = "Str ''Hola, Mundo''", THEN conjunct2, THEN conjunct2] r1
    by (simp_all add: duration_of_def)
  from keys stored again show ?thesis by (intro conjI)
qed

text \<open>
  The claim as first stated fails for a member with an expiration window: called with no
  argument it files its result under \<^verbatim>\<open>undefined\<close>, not under the instance, and a later call
  with the explicit argument \<^verbatim>\<open>undefined\<close> is a hit.
\<close>

theorem shallow_mode_key_counterexample:
  "shallow_key HUndefined (duration_of (Some 100)) (Obj 2 []) [] = Inr Undefined \<and>
   shallow_entries (state_after
     (getNewFunction example_runtime 0 getGreeting HUndefined (Some 100) None False
        env1 initial_state (Obj 2 []) [])) (0, 2)
     = [(Undefined, Str ''undefined, undefined''), (Str ''undefined__timestamp'', Num 1000)] \<and>
   \<not> Map_has SameValueZero (shallow_entries (state_after
     (getNewFunction example_runtime 0 getGreeting HUndefined (Some 100) None False
        env1 initial_state (Obj 2 []) [])) (0, 2)) (Obj 2 []) \<and>
   \<not> invoked (getNewFunction example_runtime 0 getGreeting HUndefined (Some 100) None False env2
      (state_after (getNewFunction example_runtime 0 getGreeting HUndefined (Some 100) None False
        env1 initial_state (Obj 2 []) [])) (Obj 2 []) [Undefined])"
  by (simp add: call_defs Let_def shallow_key_def duration_of_def example_runtime_def runtime_of_def
        env1_def env2_def)

subsection \<open>The tag registry\<close>

lemma Map_has_get: "Map_has same m k \<longleftrightarrow> Map_get same m k \<noteq> None"
  by (induction m) (auto split: if_splits)

lemma tag_maps_register:
  "tag_maps (register_tag reg tag mp) t = (if t = tag then tag_maps reg tag @ [mp] else tag_maps reg t)"
proof -
  have get: "\<And>v. Map_get (=) (Map_set (=) reg tag v) t = (if tag = t then Some v else Map_get (=) reg t)"
    by (rule Map_get_set) auto
  show ?thesis
  proof (cases "Map_get (=) reg tag")
    case None
    then have "\<not> Map_has (=) reg tag" by (simp add: Map_has_get)
    with None show ?thesis by (auto simp add: register_tag_def tag_maps_def get)
  next
    case (Some maps)
    then have "Map_has (=) reg tag" by (simp add: Map_has_get)
    with Some show ?thesis by (auto simp add: register_tag_def tag_maps_def get)
  qed
qed

lemma register_map_cong:
  "clearCacheTagsMap st = clearCacheTagsMap st' \<Longrightarrow>
   clearCacheTagsMap (register_map member i ts st) = clearCacheTagsMap (register_map member i ts st')"
proof (induction ts arbitrary: st st')
  case Nil
  then show ?case by simp
next
  case (Cons tag ts)
  show ?case
    unfolding register_map.simps
    by (rule Cons.IH) (simp add: Cons.prems)
qed

lemma register_map_registry:
  "clearCacheTagsMap (register_map member i ts (st\<lparr> shallow_maps := x \<rparr>)) =
   clearCacheTagsMap (register_map member i ts st)"
  by (rule register_map_cong) simp

lemma register_wrappers_cong:
  "clearCacheTagsMap st = clearCacheTagsMap st' \<Longrightarrow> wrappers st = wrappers st' \<Longrightarrow>
   clearCacheTagsMap (register_wrappers member i ts st) =
     clearCacheTagsMap (register_wrappers member i ts st') \<and>
   wrappers (register_wrappers member i ts st) = wrappers (register_wrappers member i ts st')"
proof (induction ts arbitrary: st st')
  case Nil
  then show ?case by simp
next
  case (Cons tag ts)
  show ?case
    unfolding register_wrappers.simps
    by (rule Cons.IH) (simp_all add: Cons.prems)
qed

lemma register_wrappers_registry:
  "clearCacheTagsMap (register_wrappers member i ts (st\<lparr> deep_maps := y \<rparr>)) =
   clearCacheTagsMap (register_wrappers member i ts st)"
  "wrappers (register_wrappers member i ts (st\<lparr> deep_maps := y \<rparr>)) =
   wrappers (register_wrappers member i ts st)"
  using register_wrappers_cong [of "st\<lparr> deep_maps := y \<rparr>" st member i ts] by simp_all

lemma register_map_tag_maps:
  "tag_maps (clearCacheTagsMap (register_map member i ts st)) t =
   tag_maps (clearCacheTagsMap st) t @ replicate (count_list ts t) (MapRef member i)"
proof (induction ts arbitrary: st)
  case Nil
  show ?case by simp
next
  case (Cons tag ts)
  show ?case
    by (simp add: Cons.IH tag_maps_register replicate_append_same)
qed

lemma new_wrappers_Cons:
  "new_wrappers n member i (tag # ts) t =
   (if t = tag then [WrapperRef n member i] else []) @ new_wrappers (Suc n) member i ts t"
proof -
  have upt: "[0 ..< length (tag # ts)] = 0 # map Suc [0 ..< length ts]"
    by (simp add: upt_conv_Cons map_Suc_upt del: upt_Suc)
  show ?thesis
    unfolding new_wrappers_def upt
    by (auto simp add: filter_map comp_def)
qed

lemma register_wrappers_tag_maps:
  "tag_maps (clearCacheTagsMap (register_wrappers member i ts st)) t =
   tag_maps (clearCacheTagsMap st) t @ new_wrappers (wrappers st) member i ts t"
proof (induction ts arbitrary: st)
  case Nil
  show ?case by (simp add: new_wrappers_def)
next
  case (Cons tag ts)
  show ?case
    by (simp add: Cons.IH tag_maps_register new_wrappers_Cons)
qed

lemma register_wrappers_count:
  "wrappers (register_wrappers member i ts st) = wrappers st + length ts"
  by (induction ts arbitrary: st) simp_all

lemma shallow_call_registry:
  assumes "address_of this = Some i"
  shows "registered (state_after (shallow_call rt member orig hf d tags e st this args)) t =
         registered st t @
           (case tags of None \<Rightarrow> [] | Some ts \<Rightarrow> replicate (count_list ts t) (MapRef member i))"
  using assms
  by (cases tags)
     (auto simp add: shallow_call_key Let_def state_after_def registered_def
        register_map_registry register_map_tag_maps split: sum.splits prod.splits)

lemma deep_call_registry:
  assumes "address_of this = Some i"
  shows "registered (state_after (deep_call rt member orig hf d tags e st this args)) t =
         registered st t @
           (case tags of None \<Rightarrow> [] | Some ts \<Rightarrow> new_wrappers (wrappers st) member i ts t)"
    and "wrappers (state_after (deep_call rt member orig hf d tags e st this args)) =
         wrappers st + (case tags of None \<Rightarrow> 0 | Some ts \<Rightarrow> length ts)"
  using assms
  by (cases tags;
      auto simp add: deep_call_def Let_def state_after_def registered_def
        register_wrappers_registry register_wrappers_tag_maps register_wrappers_count
        split: sum.splits prod.splits)+

text \<open>
  C4 (as amended). A tagged member registers its store at every call, not once: each call
  on an instance appends to the registry, under every tag declared on the member and once
  for each occurrence of the tag in the declared list, in shallow mode the instance's
  \<^verbatim>\<open>Map\<close> itself, so that the same reference appears under the tag once more after
  each call, and in deep mode a wrapper of the instance's \<^verbatim>\<open>DeepEqualMap\<close> made for
  that call. An untagged member registers nothing.
\<close>

theorem registration_at_every_call:
  "address_of this = Some i \<longrightarrow>
     registered (state_after
         (getNewFunction rt member orig hf duration tags False e st this args)) t
       = registered st t @
           (case tags of None \<Rightarrow> [] | Some ts \<Rightarrow> replicate (count_list ts t) (MapRef member i)) \<and>
     count_list (registered (state_after
         (getNewFunction rt member orig hf duration tags False e st this args)) t) (MapRef member i)
       = count_list (registered st t) (MapRef member i) +
           (case tags of None \<Rightarrow> 0 | Some ts \<Rightarrow> count_list ts t) \<and>
     registered (state_after
         (getNewFunction rt member orig hf duration tags True e st this args)) t
       = registered st t @
           (case tags of None \<Rightarrow> [] | Some ts \<Rightarrow> new_wrappers (wrappers st) member i ts t) \<and>
     wrappers (state_after (getNewFunction rt member orig hf duration tags True e st this args))
       = wrappers st + (case tags of None \<Rightarrow> 0 | Some ts \<Rightarrow> length ts)"
proof
  assume obj: "address_of this = Some i"
  have count: "count_list (replicate n x) x = n" for n and x :: store_ref
    by (induction n) simp_all
  show "registered (state_after
         (getNewFunction rt member orig hf duration tags False e st this args)) t
       = registered st t @
           (case tags of None \<Rightarrow> [] | Some ts \<Rightarrow> replicate (count_list ts t) (MapRef member i)) \<and>
     count_list (registered (state_after
         (getNewFunction rt member orig hf duration tags False e st this args)) t) (MapRef member i)
       = count_list (registered st t) (MapRef member i) +
           (case tags of None \<Rightarrow> 0 | Some ts \<Rightarrow> count_list ts t) \<and>
     registered (state_after
         (getNewFunction rt member orig hf duration tags True e st this args)) t
       = registered st t @
           (case tags of None \<Rightarrow> [] | Some ts \<Rightarrow> new_wrappers (wrappers st) member i ts t) \<and>
     wrappers (state_after (getNewFunction rt member orig hf duration tags True e st this args))
       = wrappers st + (case tags of None \<Rightarrow> 0 | Some ts \<Rightarrow> length ts)"
    unfolding getNewFunction_shallow getNewFunction_deep
      shallow_call_registry [OF obj] deep_call_registry [OF obj]
    by (cases tags) (simp_all add: count)
qed

theorem registration_at_every_call_witness:
  "registered (state_after
       (getNewFunction example_runtime 0 echo HUndefined None (Some [''foo'', ''bar'']) False env2
          (state_after (getNewFunction example_runtime 0 echo HUndefined None
             (Some [''foo'', ''bar'']) False env1 initial_state (Obj 2 []) [Str ''x'']))
          (Obj 2 []) [Str ''x''])) ''foo''
     = [MapRef 0 2, MapRef 0 2] \<and>
   registered (state_after
       (getNewFunction example_runtime 0 echo HUndefined None (Some [''foo'', ''bar'']) True env2
          (state_after (getNewFunction example_runtime 0 echo HUndefined None
             (Some [''foo'', ''bar'']) True env1 initial_state (Obj 2 []) [Str ''x'']))
          (Obj 2 []) [Str ''x''])) ''foo''
     = [WrapperRef 0 0 2, WrapperRef 2 0 2]"
proof -
  note reg = registration_at_every_call [where this = "Obj 2 []" and i = 2 and rt = example_runtime
      and member = 0 and orig = echo and hf = HUndefined and duration = None
      and tags = "Some [''foo'', ''bar'']" and args = "[Str ''x'']" and t = "''foo''"]
  have obj: "address_of (Obj 2 []) = Some 2" by simp
  have init: "registered initial_state ''foo'' = []" "wrappers initial_state = 0"
    by (simp_all add: registered_def tag_maps_def initial_state_def)
  have nw: "\<And>n. new_wrappers n 0 2 [''foo'', ''bar''] ''foo'' = [WrapperRef n 0 2]"
    by (simp add: new_wrappers_def upt_rec)
  note first = reg [where st = initial_state and e = env1, THEN mp, OF obj]
  note second_shallow = reg [where e = env2 and st = "state_after (getNewFunction example_runtime 0
      echo HUndefined None (Some [''foo'', ''bar'']) False env1 initial_state (Obj 2 []) [Str ''x''])",
      THEN mp, OF obj]
  note second_deep = reg [where e = env2 and st = "state_after (getNewFunction example_runtime 0
      echo HUndefined None (Some [''foo'', ''bar'']) True env1 initial_state (Obj 2 []) [Str ''x''])",
      THEN mp, OF obj]
  show ?thesis
    using first second_shallow second_deep
    by (simp add: init nw)
qed

text \<open>
  The claim as first stated fails: after two calls of a shallow member tagged \<^verbatim>\<open>foo\<close> on
  one instance, the registry holds the same store reference twice under \<^verbatim>\<open>foo\<close>.
\<close>

theorem registration_once_counterexample:
  "registered (state_after
       (getNewFunction example_runtime 0 echo HUndefined None (Some [''foo'']) False env2
          (state_after (getNewFunction example_runtime 0 echo HUndefined None
             (Some [''foo'']) False env1 initial_state (Obj 2 []) [Str ''x'']))
          (Obj 2 []) [Str ''x''])) ''foo''
     = [MapRef 0 2, MapRef 0 2] \<and>
   count_list [MapRef 0 2, MapRef 0 2] (MapRef 0 2) = 2"
  by (simp add: call_defs Let_def registered_def tag_maps_def register_tag_def
        example_runtime_def runtime_of_def echo_def env1_def env2_def)

subsection \<open>Invalidation by tag\<close>

lemma clear_store_registry [simp]: "clearCacheTagsMap (clear_store mp st) = clearCacheTagsMap st"
  by (cases mp) simp_all

lemma clear_store_shallow:
  "shallow_entries (clear_store mp st) p =
     (if mp = MapRef (fst p) (snd p) then [] else shallow_entries st p)"
  by (cases mp; cases p) (auto simp add: shallow_entries_def)

lemma clear_store_deep:
  "deep_entries (clear_store mp st) p =
     (if \<exists>n. mp = WrapperRef n (fst p) (snd p) then [] else deep_entries st p)"
  by (cases mp; cases p) (auto simp add: deep_entries_def DeepEqualMap_clear_def)

lemma clear_maps_cleared:
  "distinct cleared \<Longrightarrow>
   distinct (fst (clear_maps maps (cleared, st))) \<and>
   set (fst (clear_maps maps (cleared, st))) = set cleared \<union> set maps \<and>
   clearCacheTagsMap (snd (clear_maps maps (cleared, st))) = clearCacheTagsMap st"
proof (induction maps arbitrary: cleared st)
  case Nil
  then show ?case by simp
next
  case (Cons mp maps)
  show ?case
  proof (cases "mp \<in> set cleared")
    case True
    with Cons.IH [OF Cons.prems, of st] show ?thesis by auto
  next
    case False
    with Cons.prems have "distinct (cleared @ [mp])" by simp
    from Cons.IH [OF this, of "clear_store mp st"] False show ?thesis by auto
  qed
qed

lemma clear_maps_shallow:
  "shallow_entries (snd (clear_maps maps (cleared, st))) p =
     (if MapRef (fst p) (snd p) \<in> set maps - set cleared then [] else shallow_entries st p)"
proof (induction maps arbitrary: cleared st)
  case Nil
  show ?case by simp
next
  case (Cons mp maps)
  show ?case
  proof (cases "mp \<in> set cleared")
    case True
    with Cons.IH [of cleared st] show ?thesis by auto
  next
    case False
    with Cons.IH [of "cleared @ [mp]" "clear_store mp st"] show ?thesis
      by (auto simp add: clear_store_shallow)
  qed
qed

lemma clear_maps_deep:
  "deep_entries (snd (clear_maps maps (cleared, st))) p =
     (if \<exists>n. WrapperRef n (fst p) (snd p) \<in> set maps - set cleared then []
      else deep_entries st p)"
proof (induction maps arbitrary: cleared st)
  case Nil
  show ?case by simp
next
  case (Cons mp maps)
  show ?case
  proof (cases "mp \<in> set cleared")
    case True
    with Cons.IH [of cleared st] show ?thesis by auto
  next
    case False
    with Cons.IH [of "cleared @ [mp]" "clear_store mp st"] show ?thesis
      by (auto simp add: clear_store_deep)
  qed
qed

lemma clear_tags_cleared:
  "distinct cleared \<Longrightarrow>
   distinct (fst (clear_tags ts (cleared, st))) \<and>
   set (fst (clear_tags ts (cleared, st))) = set cleared \<union> refs_under st ts \<and>
   clearCacheTagsMap (snd (clear_tags ts (cleared, st))) = clearCacheTagsMap st"
proof (induction ts arbitrary: cleared st)
  case Nil
  then show ?case by (simp add: refs_under_def)
next
  case (Cons tag ts)
  show ?case
  proof (cases "Map_get (=) (clearCacheTagsMap st) tag")
    case None
    then have "registered st tag = []" by (simp add: registered_def tag_maps_def)
    with None Cons.IH [OF Cons.prems, of st] show ?thesis by (simp add: refs_under_def)
  next
    case (Some maps)
    then have maps: "registered st tag = maps" by (simp add: registered_def tag_maps_def)
    obtain c' st' where step: "clear_maps maps (cleared, st) = (c', st')"
      by (cases "clear_maps maps (cleared, st)")
    with clear_maps_cleared [OF Cons.prems, of maps st]
    have d: "distinct c'" and s: "set c' = set cleared \<union> set maps"
      and r: "clearCacheTagsMap st' = clearCacheTagsMap st" by simp_all
    from r have same: "refs_under st' ts = refs_under st ts"
      by (simp add: refs_under_def registered_def)
    from Cons.IH [OF d, of st'] Some step s r same maps show ?thesis
      by (auto simp add: refs_under_def)
  qed
qed

lemma clear_maps_set:
  "set (fst (clear_maps maps (cleared, st))) = set cleared \<union> set maps \<and>
   clearCacheTagsMap (snd (clear_maps maps (cleared, st))) = clearCacheTagsMap st"
proof (induction maps arbitrary: cleared st)
  case Nil
  show ?case by simp
next
  case (Cons mp maps)
  show ?case
  proof (cases "mp \<in> set cleared")
    case True
    with Cons.IH [of cleared st] show ?thesis by auto
  next
    case False
    with Cons.IH [of "cleared @ [mp]" "clear_store mp st"] show ?thesis by auto
  qed
qed

lemma refs_under_Cons: "refs_under st (tag # ts) = set (registered st tag) \<union> refs_under st ts"
  by (simp add: refs_under_def)

lemma refs_under_registry:
  "clearCacheTagsMap st' = clearCacheTagsMap st \<Longrightarrow> refs_under st' ts = refs_under st ts"
  by (simp add: refs_under_def registered_def)

lemma clear_tags_shallow:
  "shallow_entries (snd (clear_tags ts (cleared, st))) p =
     (if MapRef (fst p) (snd p) \<in> refs_under st ts - set cleared then [] else shallow_entries st p)"
proof (induction ts arbitrary: cleared st)
  case Nil
  show ?case by (simp add: refs_under_def)
next
  case (Cons tag ts)
  show ?case
  proof (cases "Map_get (=) (clearCacheTagsMap st) tag")
    case None
    then have "registered st tag = []" by (simp add: registered_def tag_maps_def)
    with None Cons.IH [of cleared st] show ?thesis by (simp add: refs_under_Cons)
  next
    case (Some maps)
    then have maps: "registered st tag = maps" by (simp add: registered_def tag_maps_def)
    obtain c' st' where step: "clear_maps maps (cleared, st) = (c', st')"
      by (cases "clear_maps maps (cleared, st)")
    from clear_maps_set [of maps cleared st] step
    have acc: "set c' = set cleared \<union> set maps"
      and r: "clearCacheTagsMap st' = clearCacheTagsMap st" by simp_all
    from clear_maps_shallow [of maps cleared st p] step
    have e: "shallow_entries st' p =
        (if MapRef (fst p) (snd p) \<in> set maps - set cleared then [] else shallow_entries st p)"
      by simp
    have "shallow_entries (snd (clear_tags (tag # ts) (cleared, st))) p =
          shallow_entries (snd (clear_tags ts (c', st'))) p"
      using Some step by simp
    also have "\<dots> = (if MapRef (fst p) (snd p) \<in> refs_under st ts - set c' then []
                     else shallow_entries st' p)"
      by (simp add: Cons.IH refs_under_registry [OF r])
    also have "\<dots> = (if MapRef (fst p) (snd p) \<in> refs_under st (tag # ts) - set cleared then []
                     else shallow_entries st p)"
      by (auto simp add: e acc refs_under_Cons maps)
    finally show ?thesis .
  qed
qed

lemma clear_tags_deep:
  "deep_entries (snd (clear_tags ts (cleared, st))) p =
     (if \<exists>n. WrapperRef n (fst p) (snd p) \<in> refs_under st ts - set cleared then []
      else deep_entries st p)"
proof (induction ts arbitrary: cleared st)
  case Nil
  show ?case by (simp add: refs_under_def)
next
  case (Cons tag ts)
  show ?case
  proof (cases "Map_get (=) (clearCacheTagsMap st) tag")
    case None
    then have "registered st tag = []" by (simp add: registered_def tag_maps_def)
    with None Cons.IH [of cleared st] show ?thesis by (simp add: refs_under_Cons)
  next
    case (Some maps)
    then have maps: "registered st tag = maps" by (simp add: registered_def tag_maps_def)
    obtain c' st' where step: "clear_maps maps (cleared, st) = (c', st')"
      by (cases "clear_maps maps (cleared, st)")
    from clear_maps_set [of maps cleared st] step
    have acc: "set c' = set cleared \<union> set maps"
      and r: "clearCacheTagsMap st' = clearCacheTagsMap st" by simp_all
    from clear_maps_deep [of maps cleared st p] step
    have e: "deep_entries st' p =
        (if \<exists>n. WrapperRef n (fst p) (snd p) \<in> set maps - set cleared then []
         else deep_entries st p)"
      by simp
    have "deep_entries (snd (clear_tags (tag # ts) (cleared, st))) p =
          deep_entries (snd (clear_tags ts (c', st'))) p"
      using Some step by simp
    also have "\<dots> = (if \<exists>n. WrapperRef n (fst p) (snd p) \<in> refs_under st ts - set c' then []
                     else deep_entries st' p)"
      by (simp add: Cons.IH refs_under_registry [OF r])
    also have "\<dots> = (if \<exists>n. WrapperRef n (fst p) (snd p) \<in> refs_under st (tag # ts) - set cleared
                     then [] else deep_entries st p)"
      by (auto simp add: e acc refs_under_Cons maps)
    finally show ?thesis .
  qed
qed

text \<open>What \<^verbatim>\<open>clear\<close> returns and what it does to the stores.\<close>

lemma clear_count: "fst (clear tags st) = card (refs_under st tags)"
proof -
  obtain c st' where r: "clear_tags tags ([], st) = (c, st')"
    by (cases "clear_tags tags ([], st)")
  with clear_tags_cleared [of "[]" tags st] have "distinct c" "set c = refs_under st tags"
    by simp_all
  then have "length c = card (refs_under st tags)" by (metis distinct_card)
  with r show ?thesis by (simp add: clear_def)
qed

lemma clear_stores:
  "shallow_entries (snd (clear tags st)) p =
     (if MapRef (fst p) (snd p) \<in> refs_under st tags then [] else shallow_entries st p)"
  "deep_entries (snd (clear tags st)) p =
     (if \<exists>n. WrapperRef n (fst p) (snd p) \<in> refs_under st tags then [] else deep_entries st p)"
  "clearCacheTagsMap (snd (clear tags st)) = clearCacheTagsMap st"
proof -
  have snd_clear: "snd (clear tags st) = snd (clear_tags tags ([], st))"
    by (simp add: clear_def split: prod.splits)
  show "shallow_entries (snd (clear tags st)) p =
     (if MapRef (fst p) (snd p) \<in> refs_under st tags then [] else shallow_entries st p)"
    using clear_tags_shallow [of tags "[]" st p] by (simp add: snd_clear)
  show "deep_entries (snd (clear tags st)) p =
     (if \<exists>n. WrapperRef n (fst p) (snd p) \<in> refs_under st tags then [] else deep_entries st p)"
    using clear_tags_deep [of tags "[]" st p] by (simp add: snd_clear)
  show "clearCacheTagsMap (snd (clear tags st)) = clearCacheTagsMap st"
    using clear_tags_cleared [of "[]" tags st] by (simp add: snd_clear)
qed

lemma clear_unknown:
  assumes "\<And>tag. tag \<in> set tags \<Longrightarrow> Map_get (=) (clearCacheTagsMap st) tag = None"
  shows "clear tags st = (0, st)"
proof -
  have "clear_tags tags ([], st) = ([], st)"
    using assms by (induction tags) simp_all
  then show ?thesis by (simp add: clear_def)
qed

text \<open>
  When every reference under the tags is a \<^verbatim>\<open>Map\<close> (what shallow members register),
  the number returned is the number of stores cleared.
\<close>

lemma clear_count_stores:
  assumes "\<And>mp. mp \<in> refs_under st tags \<Longrightarrow> \<exists>member i. mp = MapRef member i"
  shows "fst (clear tags st) = card {p. MapRef (fst p) (snd p) \<in> refs_under st tags}"
proof -
  let ?R = "refs_under st tags"
  have "?R = (\<lambda>p. MapRef (fst p) (snd p)) ` {p. MapRef (fst p) (snd p) \<in> ?R}"
  proof (rule set_eqI)
    fix mp
    show "mp \<in> ?R \<longleftrightarrow> mp \<in> (\<lambda>p. MapRef (fst p) (snd p)) ` {p. MapRef (fst p) (snd p) \<in> ?R}"
    proof
      assume "mp \<in> ?R"
      moreover from this obtain member i where "mp = MapRef member i" using assms by blast
      ultimately have "(member, i) \<in> {p. MapRef (fst p) (snd p) \<in> ?R}" by simp
      with \<open>mp = MapRef member i\<close> show "mp \<in> (\<lambda>p. MapRef (fst p) (snd p)) ` {p. MapRef (fst p) (snd p) \<in> ?R}"
        by (metis (mono_tags, lifting) fst_conv snd_conv image_eqI)
    next
      assume "mp \<in> (\<lambda>p. MapRef (fst p) (snd p)) ` {p. MapRef (fst p) (snd p) \<in> ?R}"
      then show "mp \<in> ?R" by auto
    qed
  qed
  moreover have "inj_on (\<lambda>p. MapRef (fst p) (snd p)) {p. MapRef (fst p) (snd p) \<in> ?R}"
    by (auto simp add: inj_on_def prod_eq_iff)
  ultimately have "card ?R = card {p. MapRef (fst p) (snd p) \<in> ?R}"
    by (metis card_image)
  then show ?thesis by (simp add: clear_count)
qed

text \<open>
  C3. The claim: \<^verbatim>\<open>clear\<close> returns the number of distinct cache stores cleared and clears
  each store at most once in an invocation, also when the same store is reachable from
  several of the tags; unknown tags clear nothing and stores under other tags only are left
  alone. The lemmas above show what the code does: it counts and clears the distinct
  references under the tags, which are the stores themselves for shallow members. For a
  deep member the references are wrappers made anew at each call and for each tag, so the
  set \<^verbatim>\<open>cleared\<close> never recognises the store. After one call of a deep member
  tagged \<^verbatim>\<open>foo\<close> and \<^verbatim>\<open>bar\<close>, \<^verbatim>\<open>clear(['foo','bar'])\<close> clears the one
  store twice and returns 2; after two calls of a deep member tagged \<^verbatim>\<open>foo\<close>,
  \<^verbatim>\<open>clear(['foo'])\<close> returns 2. The same member in shallow mode gives 1.
\<close>

theorem clear_counts_wrappers_in_deep_mode:
  "fst (clear [''foo'', ''bar'']
     (state_after (getNewFunction rt 0 echo HUndefined None (Some [''foo'', ''bar'']) True e1
        initial_state (Obj 2 []) [Str ''x'']))) = 2 \<and>
   deep_maps (snd (clear [''foo'', ''bar'']
     (state_after (getNewFunction rt 0 echo HUndefined None (Some [''foo'', ''bar'']) True e1
        initial_state (Obj 2 []) [Str ''x''])))) = (\<lambda>p. None)((0, 2) \<mapsto> []) \<and>
   fst (clear [''foo'']
     (state_after (getNewFunction rt 0 echo HUndefined None (Some [''foo'']) True e2
        (state_after (getNewFunction rt 0 echo HUndefined None (Some [''foo'']) True e1
           initial_state (Obj 2 []) [Str ''x'']))
        (Obj 2 []) [Str ''x'']))) = 2 \<and>
   fst (clear [''foo'', ''bar'']
     (state_after (getNewFunction rt 0 echo HUndefined None (Some [''foo'', ''bar'']) False e1
        initial_state (Obj 2 []) [Str ''x'']))) = 1"
  by (simp add: call_defs Let_def clear_def register_tag_def echo_def DeepEqualMap_clear_def)

subsection \<open>The invariant in reachable states\<close>

text \<open>
  The statements above about deep mode take a store that satisfies the invariant of its
  class. Calls and \<^verbatim>\<open>clear\<close> keep the invariant, so it is no restriction.
\<close>

lemma deep_call_inv:
  assumes eqv: "equivp (rt_equal rt)"
    and inv: "\<And>q. DeepEqualMap_inv (rt_equal rt) (deep_entries st q)"
  shows "DeepEqualMap_inv (rt_equal rt)
           (deep_entries (state_after (deep_call rt member orig hf d tags e st this args)) p)"
proof (cases "address_of this = Some (snd p) \<and> fst p = member")
  case False
  then show ?thesis by (simp add: deep_call_frame(1) inv)
next
  case True
  obtain i where "p = (member, i)" using True by (cases p) auto
  with True have obj: "address_of this = Some i" and p: "p = (member, i)" by auto
  show ?thesis
  proof (cases "deep_hashKey hf this args (addr_args e)")
    case (Inl x)
    with obj have "returned (deep_call rt member orig hf d tags e st this args) = Inl x"
      by (simp add: deep_call_def Let_def returned_def)
    then show ?thesis by (simp add: deep_call_error_store inv)
  next
    case (Inr k)
    show ?thesis
      unfolding p deep_call_result(3) [OF obj Inr]
      using eqv inv by (rule deep_lookup_inv)
  qed
qed

text \<open>
  Every store of a reachable state satisfies the invariant of \<^verbatim>\<open>DeepEqualMap\<close>, when the
  comparison is an equivalence relation.
\<close>

lemma reachable_inv:
  assumes "equivp (rt_equal rt)" and "reachable rt st"
  shows "DeepEqualMap_inv (rt_equal rt) (deep_entries st p)"
  using assms(2)
proof (induction arbitrary: p)
  case start
  show ?case by (simp add: deep_entries_def initial_state_def inv_empty)
next
  case (call st member originalMethod hashFunction duration tags useDeepEqual e this args)
  show ?case
  proof (cases useDeepEqual)
    case True
    then have mode: "useDeepEqual = True" by simp
    show ?thesis
      unfolding mode getNewFunction_deep using assms(1) call.IH by (rule deep_call_inv)
  next
    case False
    then have mode: "useDeepEqual = False" by simp
    show ?thesis
      unfolding mode getNewFunction_shallow by (simp add: shallow_call_frame(2) call.IH)
  qed
next
  case (cleared st tags)
  show ?case by (simp add: clear_stores(2) inv_empty cleared.IH)
qed

subsection \<open>What set keeps\<close>

lemma Map_set_fresh: "s \<notin> fst ` set m \<Longrightarrow> Map_set (=) m s x = m @ [(s, x)]"
  by (induction m) auto

lemma delete_first_match:
  assumes eqv: "equivp eq"
  shows "DeepEqualMap_inv eq m \<Longrightarrow> first_match eq m key = Some s0 \<Longrightarrow>
         Map_delete (=) m s0 = filter (\<lambda>entry. \<not> eq (fst (snd entry)) key) m"
proof (induction m)
  case Nil
  then show ?case by simp
next
  case (Cons p m)
  obtain s1 k1 v1 where p: "p = (s1, (k1, v1))" by (cases p) auto
  from eqv have sym: "symp eq" and trans: "transp eq"
    by (simp_all add: equivp_reflp_symp_transp)
  from Cons.prems(1) p have d: "s1 \<notin> fst ` set m" and dm: "distinct (map fst m)"
    and nh: "\<not> DeepEqualMap_has eq m k1" and um: "unique_keys eq m"
    by (auto simp: DeepEqualMap_inv_def)
  from dm um have invm: "DeepEqualMap_inv eq m" by (simp add: DeepEqualMap_inv_def)
  show ?case
  proof (cases "eq k1 key")
    case True
    with Cons.prems(2) p have s0: "s0 = s1" by simp
    have "\<not> DeepEqualMap_has eq m key"
    proof
      assume "DeepEqualMap_has eq m key"
      then obtain s' k' v' where mem: "(s', (k', v')) \<in> set m" and m': "eq k' key"
        by (auto simp: has_iff)
      from sym True have "eq key k1" by (rule sympD)
      with trans m' have "eq k' k1" by (blast dest: transpD)
      with sym have "eq k1 k'" by (blast dest: sympD)
      with sym trans mem have "DeepEqualMap_has eq m k1"
        by (auto simp: has_iff dest: sympD)
      with nh show False by simp
    qed
    then have "\<forall>s k v. (s, (k, v)) \<in> set m \<longrightarrow> \<not> eq k key"
      unfolding has_iff by blast
    then have "filter (\<lambda>entry. \<not> eq (fst (snd entry)) key) m = m"
      unfolding filter_id_conv by fastforce
    with True p s0 show ?thesis by simp
  next
    case False
    with Cons.prems(2) p have fm: "first_match eq m key = Some s0" by simp
    then obtain k0 v0 where "(s0, (k0, v0)) \<in> set m"
      by (auto dest: first_match_Some)
    then have "s0 \<in> fst ` set m" by force
    with d have "s1 \<noteq> s0" by auto
    with False p Cons.IH [OF invm fm] show ?thesis by simp
  qed
qed


lemma set_exact:
  assumes eqv: "equivp eq" and inv: "DeepEqualMap_inv eq m"
  shows "DeepEqualMap_set eq m key v s =
         Map_set (=) (filter (\<lambda>entry. \<not> eq (fst (snd entry)) key) m) s (key, v)"
proof (cases "first_match eq m key")
  case None
  then have "\<not> DeepEqualMap_has eq m key" by (simp add: first_match_None)
  then have "\<forall>s k v. (s, (k, v)) \<in> set m \<longrightarrow> \<not> eq k key"
    unfolding has_iff by blast
  then have "filter (\<lambda>entry. \<not> eq (fst (snd entry)) key) m = m"
    unfolding filter_id_conv by fastforce
  with None show ?thesis by (simp add: DeepEqualMap_set_def)
next
  case (Some s0)
  with delete_first_match [OF eqv inv Some] show ?thesis by (simp add: DeepEqualMap_set_def)
qed

lemma set_fresh:
  assumes eqv: "equivp eq" and inv: "DeepEqualMap_inv eq m" and fresh: "s \<notin> fst ` set m"
  shows "DeepEqualMap_set eq m key v s =
         filter (\<lambda>entry. \<not> eq (fst (snd entry)) key) m @ [(s, (key, v))]"
proof -
  from fresh have "s \<notin> fst ` set (filter (\<lambda>entry. \<not> eq (fst (snd entry)) key) m)" by auto
  then show ?thesis unfolding set_exact [OF eqv inv] by (rule Map_set_fresh)
qed

lemma matching_other:
  assumes eqv: "equivp eq" and inv: "DeepEqualMap_inv eq m" and fresh: "s \<notin> fst ` set m"
    and other: "\<not> eq key key'"
  shows "matching eq (DeepEqualMap_set eq m key v s) key' = matching eq m key'"
proof -
  from eqv have sym: "symp eq" and trans: "transp eq"
    by (simp_all add: equivp_reflp_symp_transp)
  have "\<And>entry. eq (fst (snd entry)) key' \<Longrightarrow> \<not> eq (fst (snd entry)) key"
  proof
    fix entry
    assume a: "eq (fst (snd entry)) key'" and b: "eq (fst (snd entry)) key"
    from sym b have "eq key (fst (snd entry))" by (rule sympD)
    with trans a have "eq key key'" by (blast dest: transpD)
    with other show False by simp
  qed
  then have "filter (\<lambda>entry. eq (fst (snd entry)) key') (filter (\<lambda>entry. \<not> eq (fst (snd entry)) key) m)
             = filter (\<lambda>entry. eq (fst (snd entry)) key') m"
    by (auto intro: filter_cong)
  with other show ?thesis
    unfolding set_fresh [OF eqv inv fresh] by (simp add: matching_def)
qed

lemma set_serials: "fst ` set (DeepEqualMap_set eq m key v s) \<subseteq> insert s (fst ` set m)"
proof
  fix x
  assume "x \<in> fst ` set (DeepEqualMap_set eq m key v s)"
  then obtain y where mem: "(x, y) \<in> set (DeepEqualMap_set eq m key v s)" by auto
  then have "(x, y) = (s, (key, v)) \<or>
             (x, y) \<in> set (case first_match eq m key of None \<Rightarrow> m | Some s0 \<Rightarrow> Map_delete (=) m s0)"
    unfolding DeepEqualMap_set_def by (rule Map_set_mem)
  then have "x = s \<or> (x, y) \<in> set m"
    by (auto split: option.splits dest: Map_delete_mem)
  then show "x \<in> insert s (fst ` set m)" by force
qed

lemma run_sets_matching:
  assumes eqv: "equivp eq"
  shows "DeepEqualMap_inv eq m \<Longrightarrow> distinct (map (\<lambda>op. snd (snd op)) ops) \<Longrightarrow>
         (\<forall>op \<in> set ops. snd (snd op) \<notin> fst ` set m) \<Longrightarrow>
         matching eq (run_sets eq m ops) key =
           (case last_write eq ops key of
              None \<Rightarrow> matching eq m key
            | Some (k, v, s) \<Rightarrow> [(s, (k, v))])"
proof (induction ops arbitrary: m)
  case Nil
  then show ?case by simp
next
  case (Cons op ops)
  obtain k v s where op: "op = (k, v, s)" by (cases op) auto
  let ?m = "DeepEqualMap_set eq m k v s"
  from Cons.prems(1) have inv': "DeepEqualMap_inv eq ?m" by (rule set_inv [OF eqv])
  from Cons.prems(2) op have d: "distinct (map (\<lambda>op. snd (snd op)) ops)"
    and ns: "\<forall>op \<in> set ops. snd (snd op) \<noteq> s" by auto
  from Cons.prems(3) op have fresh: "s \<notin> fst ` set m"
    and rest: "\<forall>op \<in> set ops. snd (snd op) \<notin> fst ` set m" by auto
  have "\<forall>op \<in> set ops. snd (snd op) \<notin> fst ` set ?m"
  proof
    fix op'
    assume mem: "op' \<in> set ops"
    with ns rest have "snd (snd op') \<notin> insert s (fst ` set m)" by auto
    with set_serials [of eq m k v s] show "snd (snd op') \<notin> fst ` set ?m" by blast
  qed
  with inv' d have ih: "matching eq (run_sets eq ?m ops) key =
           (case last_write eq ops key of
              None \<Rightarrow> matching eq ?m key
            | Some (k, v, s) \<Rightarrow> [(s, (k, v))])"
    by (rule Cons.IH)
  show ?case
  proof (cases "last_write eq ops key")
    case (Some w)
    with ih op show ?thesis by simp
  next
    case None
    show ?thesis
    proof (cases "eq k key")
      case True
      with matching_after_set [OF eqv Cons.prems(1) True, of v s] ih None op
      show ?thesis by simp
    next
      case False
      with matching_other [OF eqv Cons.prems(1) fresh False, of v] ih None op
      show ?thesis by simp
    qed
  qed
qed

lemma get_matching:
  "DeepEqualMap_get eq m key =
     (case matching eq m key of [] \<Rightarrow> Undefined | entry # es \<Rightarrow> snd (snd entry))"
proof (induction m)
  case Nil
  show ?case by (simp add: matching_def)
next
  case (Cons p m)
  obtain s0 k0 v0 where p: "p = (s0, (k0, v0))" by (cases p) auto
  with Cons.IH show ?case by (simp add: matching_def)
qed

lemma last_write_Some:
  "op \<in> set ops \<Longrightarrow> eq (fst op) key \<Longrightarrow> last_write eq ops key \<noteq> None"
proof (induction ops)
  case Nil
  then show ?case by simp
next
  case (Cons op' ops)
  obtain k v s where op': "op' = (k, v, s)" by (cases op') auto
  show ?case
  proof (cases "op = op'")
    case True
    with Cons.prems(2) op' show ?thesis by (simp split: option.splits)
  next
    case False
    with Cons.prems have "op \<in> set ops" by simp
    then have "last_write eq ops key \<noteq> None" using Cons.prems(2) by (rule Cons.IH)
    with op' show ?thesis by (auto split: option.splits)
  qed
qed

text \<open>
  C9. In the deep-equality store, storing under a key that matches a stored key removes the
  old entry before the new one is inserted, and every other entry stays. On a store that
  satisfies the invariant of the class, \<^verbatim>\<open>set\<close> gives the entries that do not match the
  key, in their order, with the new entry written under its serialized key: at the end when
  the serialized key is new, as one built from the clock and \<^verbatim>\<open>Math.random()\<close> is. So the
  entries that match the key are the new entry alone, \<^verbatim>\<open>has\<close> and \<^verbatim>\<open>get\<close> find it and its
  value (last write wins), every old entry that does not match the key and has another
  serialized key is kept, and a lookup of a key that does not match finds what it found
  before. The invariant is kept by \<^verbatim>\<open>set\<close>, so after every sequence of \<^verbatim>\<open>set\<close> operations
  on a new map no candidate key matches two entries; when the serialized keys of the
  sequence are distinct, the entries that match a candidate are exactly the last operation
  whose key matches it, so every key that was stored has exactly one entry. The comparison
  is taken to be an equivalence relation, as structural equality is.
\<close>

theorem deep_store_one_entry_per_key:
  assumes "equivp eq" and "DeepEqualMap_inv eq m"
  shows "DeepEqualMap_inv eq (DeepEqualMap_set eq m key v s) \<and>
         matching eq (DeepEqualMap_set eq m key v s) key = [(s, (key, v))] \<and>
         DeepEqualMap_has eq (DeepEqualMap_set eq m key v s) key \<and>
         DeepEqualMap_get eq (DeepEqualMap_set eq m key v s) key = v \<and>
         (\<forall>entry \<in> set (DeepEqualMap_set eq m key v s).
            entry = (s, (key, v)) \<or> (entry \<in> set m \<and> \<not> eq (fst (snd entry)) key)) \<and>
         DeepEqualMap_set eq m key v s =
           Map_set (=) (filter (\<lambda>entry. \<not> eq (fst (snd entry)) key) m) s (key, v) \<and>
         (\<forall>entry \<in> set m.
            \<not> eq (fst (snd entry)) key \<and> fst entry \<noteq> s \<longrightarrow>
            entry \<in> set (DeepEqualMap_set eq m key v s)) \<and>
         (s \<notin> fst ` set m \<longrightarrow>
            DeepEqualMap_set eq m key v s =
              filter (\<lambda>entry. \<not> eq (fst (snd entry)) key) m @ [(s, (key, v))] \<and>
            (\<not> eq key key' \<longrightarrow>
               matching eq (DeepEqualMap_set eq m key v s) key' = matching eq m key' \<and>
               DeepEqualMap_has eq (DeepEqualMap_set eq m key v s) key' = DeepEqualMap_has eq m key' \<and>
               DeepEqualMap_get eq (DeepEqualMap_set eq m key v s) key' = DeepEqualMap_get eq m key')) \<and>
         DeepEqualMap_inv eq (run_sets eq [] ops) \<and>
         length (matching eq (run_sets eq [] ops) key') \<le> 1 \<and>
         (distinct (map (\<lambda>op. snd (snd op)) ops) \<longrightarrow>
            matching eq (run_sets eq [] ops) key' =
              (case last_write eq ops key' of None \<Rightarrow> [] | Some (k, w, t) \<Rightarrow> [(t, (k, w))]) \<and>
            DeepEqualMap_get eq (run_sets eq [] ops) key' =
              (case last_write eq ops key' of None \<Rightarrow> Undefined | Some (k, w, t) \<Rightarrow> w) \<and>
            (\<forall>op \<in> set ops. length (matching eq (run_sets eq [] ops) (fst op)) = 1))"
proof -
  note eqv = assms(1) and inv = assms(2)
  from eqv have refl: "\<And>k. eq k k" by (simp add: equivp_reflp)
  have old: "\<forall>entry \<in> set (DeepEqualMap_set eq m key v s).
            entry = (s, (key, v)) \<or> (entry \<in> set m \<and> \<not> eq (fst (snd entry)) key)"
  proof
    fix entry
    assume mem: "entry \<in> set (DeepEqualMap_set eq m key v s)"
    obtain s0 k0 v0 where e: "entry = (s0, (k0, v0))" by (cases entry) auto
    with set_old_entry [OF assms, of s0 k0 v0 key v s] mem
    show "entry = (s, (key, v)) \<or> (entry \<in> set m \<and> \<not> eq (fst (snd entry)) key)" by auto
  qed
  have kept: "\<forall>entry \<in> set m.
            \<not> eq (fst (snd entry)) key \<and> fst entry \<noteq> s \<longrightarrow>
            entry \<in> set (DeepEqualMap_set eq m key v s)"
  proof (intro ballI impI)
    fix entry
    assume mem: "entry \<in> set m" and h: "\<not> eq (fst (snd entry)) key \<and> fst entry \<noteq> s"
    obtain s0 k0 v0 where e: "entry = (s0, (k0, v0))" by (cases entry) auto
    from inv have d: "distinct (map fst m)" by (simp add: DeepEqualMap_inv_def)
    from mem e have "(s0, (k0, v0)) \<in> set m" by simp
    with d have "(s0, (k0, v0)) \<in> set (DeepEqualMap_set eq m key v s)"
      using h e by (intro set_keeps_entry) simp_all
    with e show "entry \<in> set (DeepEqualMap_set eq m key v s)" by simp
  qed
  have fresh: "s \<notin> fst ` set m \<longrightarrow>
            DeepEqualMap_set eq m key v s =
              filter (\<lambda>entry. \<not> eq (fst (snd entry)) key) m @ [(s, (key, v))] \<and>
            (\<not> eq key key' \<longrightarrow>
               matching eq (DeepEqualMap_set eq m key v s) key' = matching eq m key' \<and>
               DeepEqualMap_has eq (DeepEqualMap_set eq m key v s) key' = DeepEqualMap_has eq m key' \<and>
               DeepEqualMap_get eq (DeepEqualMap_set eq m key v s) key' = DeepEqualMap_get eq m key')"
  proof (intro impI conjI)
    assume f: "s \<notin> fst ` set m"
    then show "DeepEqualMap_set eq m key v s =
              filter (\<lambda>entry. \<not> eq (fst (snd entry)) key) m @ [(s, (key, v))]"
      by (rule set_fresh [OF eqv inv])
    assume "\<not> eq key key'"
    with f have mo: "matching eq (DeepEqualMap_set eq m key v s) key' = matching eq m key'"
      by (rule matching_other [OF eqv inv])
    then show "matching eq (DeepEqualMap_set eq m key v s) key' = matching eq m key'" .
    from mo show "DeepEqualMap_has eq (DeepEqualMap_set eq m key v s) key' = DeepEqualMap_has eq m key'"
      by (simp add: has_matching)
    from mo show "DeepEqualMap_get eq (DeepEqualMap_set eq m key v s) key' = DeepEqualMap_get eq m key'"
      by (simp add: get_matching)
  qed
  have runs: "DeepEqualMap_inv eq (run_sets eq [] ops)"
    using eqv inv_empty by (rule run_sets_inv)
  have seq: "distinct (map (\<lambda>op. snd (snd op)) ops) \<longrightarrow>
            matching eq (run_sets eq [] ops) key' =
              (case last_write eq ops key' of None \<Rightarrow> [] | Some (k, w, t) \<Rightarrow> [(t, (k, w))]) \<and>
            DeepEqualMap_get eq (run_sets eq [] ops) key' =
              (case last_write eq ops key' of None \<Rightarrow> Undefined | Some (k, w, t) \<Rightarrow> w) \<and>
            (\<forall>op \<in> set ops. length (matching eq (run_sets eq [] ops) (fst op)) = 1)"
  proof (intro impI conjI ballI)
    assume d: "distinct (map (\<lambda>op. snd (snd op)) ops)"
    have mt: "\<And>c. matching eq (run_sets eq [] ops) c =
              (case last_write eq ops c of None \<Rightarrow> [] | Some (k, w, t) \<Rightarrow> [(t, (k, w))])"
    proof -
      fix c
      have "matching eq [] c = []" by (simp add: matching_def)
      with run_sets_matching [OF eqv inv_empty d, of c] show "matching eq (run_sets eq [] ops) c =
              (case last_write eq ops c of None \<Rightarrow> [] | Some (k, w, t) \<Rightarrow> [(t, (k, w))])"
        by (simp split: option.splits)
    qed
    show "matching eq (run_sets eq [] ops) key' =
              (case last_write eq ops key' of None \<Rightarrow> [] | Some (k, w, t) \<Rightarrow> [(t, (k, w))])"
      by (rule mt)
    show "DeepEqualMap_get eq (run_sets eq [] ops) key' =
              (case last_write eq ops key' of None \<Rightarrow> Undefined | Some (k, w, t) \<Rightarrow> w)"
      unfolding get_matching mt by (simp split: option.splits)
    fix op
    assume "op \<in> set ops"
    then have "last_write eq ops (fst op) \<noteq> None" using refl by (rule last_write_Some)
    then show "length (matching eq (run_sets eq [] ops) (fst op)) = 1"
      unfolding mt by (auto split: option.splits)
  qed
  show ?thesis
    apply (insert set_inv [OF assms, of key v s] matching_after_set [OF assms refl, of key v s]
      has_after_set [of eq key key m v s, OF refl] get_after_set [OF assms refl, of key v s] old
      set_exact [OF assms, of key v s] kept fresh runs
      matching_at_most_one [OF assms(1) runs, of key'] seq)
    apply (intro conjI)
    apply assumption+
    done
qed

theorem deep_store_one_entry_per_key_witness:
  "DeepEqualMap_set deep_equal
       [(''s0'', (Obj 1 [(''age'', Num 25)], Str ''old'')), (''s2'', (Str ''other'', Str ''kept''))]
       (Obj 2 [(''age'', Num 25)]) (Str ''new'') ''s1''
     = [(''s2'', (Str ''other'', Str ''kept'')), (''s1'', (Obj 2 [(''age'', Num 25)], Str ''new''))] \<and>
   DeepEqualMap_inv deep_equal
     [(''s2'', (Str ''other'', Str ''kept'')), (''s1'', (Obj 2 [(''age'', Num 25)], Str ''new''))] \<and>
   matching deep_equal
     [(''s2'', (Str ''other'', Str ''kept'')), (''s1'', (Obj 2 [(''age'', Num 25)], Str ''new''))]
     (Obj 2 [(''age'', Num 25)])
     = [(''s1'', (Obj 2 [(''age'', Num 25)], Str ''new''))] \<and>
   DeepEqualMap_get deep_equal
     [(''s2'', (Str ''other'', Str ''kept'')), (''s1'', (Obj 2 [(''age'', Num 25)], Str ''new''))]
     (Obj 2 [(''age'', Num 25)]) = Str ''new'' \<and>
   DeepEqualMap_get deep_equal
     [(''s2'', (Str ''other'', Str ''kept'')), (''s1'', (Obj 2 [(''age'', Num 25)], Str ''new''))]
     (Str ''other'') = Str ''kept'' \<and>
   matching deep_equal
     (run_sets deep_equal []
        [(Obj 1 [(''age'', Num 25)], Str ''old'', ''s0''), (Str ''other'', Str ''kept'', ''s2''),
         (Obj 2 [(''age'', Num 25)], Str ''new'', ''s1'')])
     (Str ''other'') = [(''s2'', (Str ''other'', Str ''kept''))] \<and>
   DeepEqualMap_get deep_equal
     (run_sets deep_equal []
        [(Obj 1 [(''age'', Num 25)], Str ''old'', ''s0''), (Str ''other'', Str ''kept'', ''s2''),
         (Obj 2 [(''age'', Num 25)], Str ''new'', ''s1'')])
     (Str ''other'') = Str ''kept'' \<and>
   length (matching deep_equal
     (run_sets deep_equal []
        [(Obj 1 [(''age'', Num 25)], Str ''old'', ''s0''), (Str ''other'', Str ''kept'', ''s2''),
         (Obj 2 [(''age'', Num 25)], Str ''new'', ''s1'')])
     (Obj 2 [(''age'', Num 25)])) = 1"
proof -
  have inv: "DeepEqualMap_inv deep_equal
       [(''s0'', (Obj 1 [(''age'', Num 25)], Str ''old'')), (''s2'', (Str ''other'', Str ''kept''))]"
    by (simp add: DeepEqualMap_inv_def deep_equal_def)
  have r: "DeepEqualMap_set deep_equal
       [(''s0'', (Obj 1 [(''age'', Num 25)], Str ''old'')), (''s2'', (Str ''other'', Str ''kept''))]
       (Obj 2 [(''age'', Num 25)]) (Str ''new'') ''s1''
     = [(''s2'', (Str ''other'', Str ''kept'')), (''s1'', (Obj 2 [(''age'', Num 25)], Str ''new''))]"
    by (simp add: DeepEqualMap_set_def deep_equal_def)
  have other: "\<not> deep_equal (Obj 2 [(''age'', Num 25)]) (Str ''other'')"
    by (simp add: deep_equal_def)
  have lw: "last_write deep_equal
        [(Obj 1 [(''age'', Num 25)], Str ''old'', ''s0''), (Str ''other'', Str ''kept'', ''s2''),
         (Obj 2 [(''age'', Num 25)], Str ''new'', ''s1'')] (Str ''other'')
        = Some (Str ''other'', Str ''kept'', ''s2'')"
    by (simp add: deep_equal_def)
  note t = deep_store_one_entry_per_key [OF equivp_deep_equal inv,
        of "Obj 2 [(''age'', Num 25)]" "Str ''new''" "''s1''" "Str ''other''"
           "[(Obj 1 [(''age'', Num 25)], Str ''old'', ''s0''), (Str ''other'', Str ''kept'', ''s2''),
             (Obj 2 [(''age'', Num 25)], Str ''new'', ''s1'')]", unfolded r lw]
  note t1 = t [THEN conjunct1]
  note t2 = t [THEN conjunct2, THEN conjunct1]
  note t4 = t [THEN conjunct2, THEN conjunct2, THEN conjunct2, THEN conjunct1]
  have t8: "DeepEqualMap_get deep_equal
     [(''s2'', (Str ''other'', Str ''kept'')), (''s1'', (Obj 2 [(''age'', Num 25)], Str ''new''))]
     (Str ''other'') = Str ''kept''"
    using t [THEN conjunct2, THEN conjunct2, THEN conjunct2, THEN conjunct2, THEN conjunct2, THEN conjunct2, THEN conjunct2, THEN conjunct1] other by (simp add: deep_equal_def)
  have t11: "matching deep_equal
     (run_sets deep_equal []
        [(Obj 1 [(''age'', Num 25)], Str ''old'', ''s0''), (Str ''other'', Str ''kept'', ''s2''),
         (Obj 2 [(''age'', Num 25)], Str ''new'', ''s1'')])
     (Str ''other'') = [(''s2'', (Str ''other'', Str ''kept''))] \<and>
   DeepEqualMap_get deep_equal
     (run_sets deep_equal []
        [(Obj 1 [(''age'', Num 25)], Str ''old'', ''s0''), (Str ''other'', Str ''kept'', ''s2''),
         (Obj 2 [(''age'', Num 25)], Str ''new'', ''s1'')])
     (Str ''other'') = Str ''kept'' \<and>
   length (matching deep_equal
     (run_sets deep_equal []
        [(Obj 1 [(''age'', Num 25)], Str ''old'', ''s0''), (Str ''other'', Str ''kept'', ''s2''),
         (Obj 2 [(''age'', Num 25)], Str ''new'', ''s1'')])
     (Obj 2 [(''age'', Num 25)])) = 1"
    using t [THEN conjunct2, THEN conjunct2, THEN conjunct2, THEN conjunct2, THEN conjunct2, THEN conjunct2, THEN conjunct2, THEN conjunct2, THEN conjunct2, THEN conjunct2] by (simp add: deep_equal_def)
  from r t1 t2 t4 t8 t11 show ?thesis by (intro conjI) simp_all
qed

end
